theory Spec2Isabelle
  imports Complex_Main "HOL-Library.Sublist"
begin

section \<open>Shared helpers: Python strings and numbers\<close>

text \<open>
  Python \<open>str\<close> values are modelled as \<open>string\<close> (lists of characters) and Python
  \<open>int\<close> as \<open>int\<close>. A Python \<open>float\<close> is modelled by its value, \<open>pyfloat\<close>: a finite
  double is the real number it denotes (\<open>0.0\<close> and \<open>-0.0\<close> are both \<open>Finite 0\<close>), beside
  the two infinities and NaN. The functions modelled here only store, copy and test
  floats; no floating-point arithmetic is modelled.
\<close>

datatype pyfloat = Finite real | PosInf | NegInf | NaN

definition quote :: char where
  "quote = CHR 0x27"

text \<open>\<open>sep.join(parts)\<close>.\<close>

fun join :: "string \<Rightarrow> string list \<Rightarrow> string" where
  "join sep [] = []"
| "join sep [p] = p"
| "join sep (p # q # ps) = p @ sep @ join sep (q # ps)"

text \<open>Decimal rendering of an integer, as \<open>str(i)\<close> and \<open>f"{i}"\<close> do.\<close>

definition digit_char :: "nat \<Rightarrow> char" where
  "digit_char d = ''0123456789'' ! d"

fun digits :: "nat \<Rightarrow> string" where
  "digits n = (if n < 10 then [digit_char n] else digits (n div 10) @ [digit_char (n mod 10)])"

declare digits.simps [simp del]

definition str_int :: "int \<Rightarrow> string" where
  "str_int i = (if i < 0 then CHR ''-'' # digits (nat (- i)) else digits (nat i))"

section \<open>Dynamically typed values (\<open>response.json()\<close>, \<open>Dict[str, object]\<close>)\<close>

text \<open>A JSON number is an \<open>int\<close> or a \<open>float\<close> in Python, and the two behave differently.\<close>

datatype json =
    JNull
  | JBool bool
  | JInt int
  | JFloat pyfloat
  | JStr string
  | JArr "json list"
  | JObj "(string \<times> json) list"

section \<open>Candidates and grounding chunks (retrieval.py, grounding.py)\<close>

text \<open>
  The dataclass \<open>SearchResult\<close> with the field types of its annotations. Field names carry
  the prefix \<open>sr_\<close> because several classes of the program share field names.
\<close>

record SearchResult =
  sr_chunk_id :: string
  sr_doc_id :: string
  sr_rev :: string
  sr_text :: string
  sr_score :: pyfloat
  sr_section_path :: "string option"
  sr_page_start :: "int option"
  sr_page_end :: "int option"
  sr_source_url :: string
  sr_allowed_groups :: "string list"
  sr_metadata :: "(string \<times> json) list"
  sr_highlights :: "string option"

record GroundingChunk =
  gc_chunk_id :: string
  gc_doc_id :: string
  gc_rev :: string
  gc_text :: string
  gc_section_path :: "string option"
  gc_pages :: "int option \<times> int option"
  gc_source_url :: string
  gc_citation :: string
  gc_score :: pyfloat

text \<open>Truthiness of an \<open>Optional[int]\<close>: \<open>None\<close> and \<open>0\<close> are falsy.\<close>

definition truthy_page :: "int option \<Rightarrow> bool" where
  "truthy_page p = (case p of None \<Rightarrow> False | Some n \<Rightarrow> n \<noteq> 0)"

definition format_citation :: "SearchResult \<Rightarrow> string" where
  "format_citation candidate =
     (let rev_part = (if sr_rev candidate \<noteq> [] then '' Rev '' @ sr_rev candidate else []);
          page = (if truthy_page (sr_page_start candidate)
                  then '' p.'' @ str_int (the (sr_page_start candidate)) else [])
      in sr_doc_id candidate @ rev_part @ page)"

type_synonym dedup_key = "string \<times> string option \<times> int option \<times> int option"

text \<open>The tuple \<open>key\<close> built at the top of the loop body.\<close>

definition candidate_key :: "SearchResult \<Rightarrow> dedup_key" where
  "candidate_key candidate =
     (sr_doc_id candidate, sr_section_path candidate, sr_page_start candidate, sr_page_end candidate)"

text \<open>The \<open>GroundingChunk(...)\<close> constructor call of the loop body.\<close>

definition grounding_chunk_of :: "SearchResult \<Rightarrow> GroundingChunk" where
  "grounding_chunk_of candidate =
     \<lparr> gc_chunk_id = sr_chunk_id candidate,
       gc_doc_id = sr_doc_id candidate,
       gc_rev = sr_rev candidate,
       gc_text = sr_text candidate,
       gc_section_path = sr_section_path candidate,
       gc_pages = (sr_page_start candidate, sr_page_end candidate),
       gc_source_url = sr_source_url candidate,
       gc_citation = format_citation candidate,
       gc_score = sr_score candidate \<rparr>"

text \<open>\<open>per_doc_counts.get(doc_id, 0)\<close>.\<close>

definition get_count :: "(string \<rightharpoonup> int) \<Rightarrow> string \<Rightarrow> int" where
  "get_count per_doc_counts d = (case per_doc_counts d of None \<Rightarrow> 0 | Some n \<Rightarrow> n)"

text \<open>
  The \<open>for candidate in candidates\<close> loop of \<open>build_grounding_pack\<close>, with its three
  mutable locals \<open>seen\<close>, \<open>per_doc_counts\<close> and \<open>pack\<close> passed as arguments. The two
  \<open>continue\<close> statements are the first two recursive calls, \<open>break\<close> returns the pack.
  \<open>max_chunks // 3\<close> is floor division, which is \<open>div\<close> on \<open>int\<close>.
\<close>

fun pack_loop ::
  "int \<Rightarrow> bool \<Rightarrow> dedup_key set \<Rightarrow> (string \<rightharpoonup> int) \<Rightarrow> GroundingChunk list
     \<Rightarrow> SearchResult list \<Rightarrow> GroundingChunk list" where
  "pack_loop max_chunks diversify seen per_doc_counts pack [] = pack"
| "pack_loop max_chunks diversify seen per_doc_counts pack (candidate # rest) =
     (if candidate_key candidate \<in> seen
      then pack_loop max_chunks diversify seen per_doc_counts pack rest
      else if diversify \<and> get_count per_doc_counts (sr_doc_id candidate) \<ge> max 2 (max_chunks div 3)
      then pack_loop max_chunks diversify (insert (candidate_key candidate) seen)
             per_doc_counts pack rest
      else if int (length (pack @ [grounding_chunk_of candidate])) \<ge> max_chunks
      then pack @ [grounding_chunk_of candidate]
      else pack_loop max_chunks diversify (insert (candidate_key candidate) seen)
             (if diversify
              then per_doc_counts(sr_doc_id candidate \<mapsto>
                     get_count per_doc_counts (sr_doc_id candidate) + 1)
              else per_doc_counts)
             (pack @ [grounding_chunk_of candidate]) rest)"

definition build_grounding_pack :: "SearchResult list \<Rightarrow> int \<Rightarrow> bool \<Rightarrow> GroundingChunk list" where
  "build_grounding_pack candidates max_chunks diversify =
     pack_loop max_chunks diversify {} Map.empty [] candidates"

text \<open>
  What the loop decides for each candidate it examines, in input order. The list stops at
  the candidate after which the loop breaks, so candidates never reached have no entry.
  The function follows \<open>pack_loop\<close> branch by branch and carries the length of the pack
  instead of the pack.
\<close>

datatype verdict = Duplicate | Capped | Kept

fun verdicts ::
  "int \<Rightarrow> bool \<Rightarrow> dedup_key set \<Rightarrow> (string \<rightharpoonup> int) \<Rightarrow> nat \<Rightarrow> SearchResult list \<Rightarrow> verdict list" where
  "verdicts max_chunks diversify seen per_doc_counts n [] = []"
| "verdicts max_chunks diversify seen per_doc_counts n (candidate # rest) =
     (if candidate_key candidate \<in> seen
      then Duplicate # verdicts max_chunks diversify seen per_doc_counts n rest
      else if diversify \<and> get_count per_doc_counts (sr_doc_id candidate) \<ge> max 2 (max_chunks div 3)
      then Capped # verdicts max_chunks diversify (insert (candidate_key candidate) seen)
             per_doc_counts n rest
      else if int (Suc n) \<ge> max_chunks
      then [Kept]
      else Kept # verdicts max_chunks diversify (insert (candidate_key candidate) seen)
             (if diversify
              then per_doc_counts(sr_doc_id candidate \<mapsto>
                     get_count per_doc_counts (sr_doc_id candidate) + 1)
              else per_doc_counts)
             (Suc n) rest)"

definition pack_verdicts :: "SearchResult list \<Rightarrow> int \<Rightarrow> bool \<Rightarrow> verdict list" where
  "pack_verdicts candidates max_chunks diversify =
     verdicts max_chunks diversify {} Map.empty 0 candidates"

text \<open>The deduplication key as it can be read off an entry of the pack.\<close>

definition pack_key :: "GroundingChunk \<Rightarrow> dedup_key" where
  "pack_key g = (gc_doc_id g, gc_section_path g, fst (gc_pages g), snd (gc_pages g))"

text \<open>The candidates a verdict list marks as kept.\<close>

definition kept_candidates :: "SearchResult list \<Rightarrow> verdict list \<Rightarrow> SearchResult list" where
  "kept_candidates cs vs = map fst (filter (\<lambda>p. snd p = Kept) (zip cs vs))"

text \<open>A concrete candidate for the worked examples below.\<close>

definition example_candidate :: "string \<Rightarrow> string \<Rightarrow> int \<Rightarrow> SearchResult" where
  "example_candidate chunk doc page =
     \<lparr> sr_chunk_id = chunk, sr_doc_id = doc, sr_rev = ''B'', sr_text = ''body'',
       sr_score = Finite 1, sr_section_path = None, sr_page_start = Some page,
       sr_page_end = Some page, sr_source_url = [], sr_allowed_groups = [],
       sr_metadata = [], sr_highlights = None \<rparr>"

section \<open>Errors and collaborators\<close>

text \<open>
  Exceptions are values: every function that can raise returns \<open>error + 'a\<close>, with \<open>Inl\<close>
  the exception. \<open>JSONDecodeError\<close> is the one class \<open>retrieve\<close> catches; it is a subclass
  of \<open>ValueError\<close>, so a plain \<open>ValueError\<close> is a different exception and is not caught by
  \<open>except json.JSONDecodeError\<close>. \<open>BackendError\<close> stands for whatever the HTTP client or
  the embedding service raises (transport failure, \<open>raise_for_status\<close>).
\<close>

datatype error =
    IndexError
  | TypeError
  | ValueError
  | AttributeError
  | OverflowError
  | RecursionError
  | MemoryError
  | JSONDecodeError
  | BackendError

text \<open>
  The embedding provider is a parameter of the model (\<open>embed_texts\<close> below):
  \<open>embed(texts)\<close> returns one vector per text, or raises.
\<close>

type_synonym embedder = "string list \<Rightarrow> error + pyfloat list list"

section \<open>Retriever (retrieval.py)\<close>

text \<open>The attributes of \<open>AzureSearchRetriever\<close> that \<open>retrieve\<close> reads.\<close>

record retriever =
  rt_index_name :: string
  rt_select_fields :: "string list"
  rt_semantic_configuration :: "string option"
  rt_vector_field :: string

definition default_select_fields :: "string list" where
  "default_select_fields =
     [''id'', ''doc_id'', ''rev'', ''text'', ''section_path'', ''page_start'', ''page_end'',
      ''source_url'', ''allowed_groups'', ''metadata_json'']"

text \<open>\<open>__init__\<close>: \<open>select_fields or [...]\<close> replaces \<open>None\<close> and the empty sequence.\<close>

definition init_retriever :: "string \<Rightarrow> string list option \<Rightarrow> string option \<Rightarrow> string \<Rightarrow> retriever" where
  "init_retriever index_name select_fields semantic_configuration vector_field =
     \<lparr> rt_index_name = index_name,
       rt_select_fields = (case select_fields of None \<Rightarrow> default_select_fields
                           | Some fs \<Rightarrow> if fs = [] then default_select_fields else fs),
       rt_semantic_configuration = semantic_configuration,
       rt_vector_field = vector_field \<rparr>"

text \<open>The f-string \<open>f"allowed_groups/any(g: g eq '{group}')"\<close>: the group is inserted as it is.\<close>

definition group_clause :: "string \<Rightarrow> string" where
  "group_clause grp = ''allowed_groups/any(g: g eq '' @ [quote] @ grp @ [quote] @ '')''"

definition filter_for_groups :: "string list \<Rightarrow> string option" where
  "filter_for_groups user_groups =
     (if user_groups = [] then None
      else Some (join '' or '' (map group_clause user_groups)))"

text \<open>
  The request body \<open>retrieve\<close> builds, a dict in insertion order. \<open>if filter_clause:\<close> and
  \<open>if self._semantic_configuration:\<close> test truthiness: \<open>None\<close> and the empty string add
  nothing.
\<close>

definition request_body :: "retriever \<Rightarrow> string \<Rightarrow> pyfloat list \<Rightarrow> string list \<Rightarrow> int \<Rightarrow> (string \<times> json) list" where
  "request_body self query vector user_groups top_k =
     [(''search'', JStr query),
      (''top'', JInt top_k),
      (''select'', JStr (join '','' (rt_select_fields self))),
      (''includeTotalResultCount'', JBool False),
      (''vectors'', JArr [JObj [(''value'', JArr (map JFloat vector)),
                               (''fields'', JStr (rt_vector_field self)),
                               (''k'', JInt top_k)]])]
     @ (case filter_for_groups user_groups of
          None \<Rightarrow> []
        | Some filter_clause \<Rightarrow> if filter_clause = [] then [] else [(''filter'', JStr filter_clause)])
     @ (case rt_semantic_configuration self of
          None \<Rightarrow> []
        | Some c \<Rightarrow> if c = [] then []
                    else [(''queryType'', JStr ''semantic''), (''semanticConfiguration'', JStr c)])"

text \<open>
  The \<open>SearchResult\<close> that \<open>retrieve\<close> constructs. Python does not check the dataclass
  annotations at run time, so the fields hold whatever JSON values the backend sent;
  only \<open>score\<close> went through \<open>float(...)\<close>.
\<close>

record raw_SearchResult =
  rs_chunk_id :: json
  rs_doc_id :: json
  rs_rev :: json
  rs_text :: json
  rs_score :: pyfloat
  rs_section_path :: json
  rs_page_start :: json
  rs_page_end :: json
  rs_source_url :: json
  rs_allowed_groups :: json
  rs_metadata :: json
  rs_highlights :: json

text \<open>\<open>d.get(key, default)\<close> on a dict with unique keys.\<close>

definition dict_get :: "(string \<times> json) list \<Rightarrow> string \<Rightarrow> json \<Rightarrow> json" where
  "dict_get d key dflt = (case map_of d key of None \<Rightarrow> dflt | Some v \<Rightarrow> v)"

text \<open>Truthiness of a JSON value; of the floats only zero is falsy.\<close>

fun truthy :: "json \<Rightarrow> bool" where
  "truthy JNull = False"
| "truthy (JBool b) = b"
| "truthy (JInt n) = (n \<noteq> 0)"
| "truthy (JFloat x) = (x \<noteq> Finite 0)"
| "truthy (JStr s) = (s \<noteq> [])"
| "truthy (JArr xs) = (xs \<noteq> [])"
| "truthy (JObj kvs) = (kvs \<noteq> [])"

text \<open>
  Iterating a value, as \<open>for\<close> and \<open>str.join\<close> do: a list gives its items, a string its
  characters, a dict its keys; anything else is not iterable.
\<close>

fun iter_items :: "json \<Rightarrow> error + json list" where
  "iter_items (JArr xs) = Inr xs"
| "iter_items (JStr s) = Inr (map (\<lambda>c. JStr [c]) s)"
| "iter_items (JObj kvs) = Inr (map (\<lambda>kv. JStr (fst kv)) kvs)"
| "iter_items v = Inl TypeError"

text \<open>The strings of a list of values, or \<open>TypeError\<close> at the first item that is no string.\<close>

fun strings_of :: "json list \<Rightarrow> error + string list" where
  "strings_of [] = Inr []"
| "strings_of (JStr s # rest) = (case strings_of rest of Inl e \<Rightarrow> Inl e | Inr ss \<Rightarrow> Inr (s # ss))"
| "strings_of (v # rest) = Inl TypeError"

text \<open>
  \<open>float(v)\<close>. A float is returned as it is. The conversions of an \<open>int\<close> (which raises
  \<open>OverflowError\<close> beyond the range of a double, and rounds otherwise) and of a string
  (which raises \<open>ValueError\<close> on a string that is no number) are Python's own and are
  parameters of the model; \<open>bool\<close> is a subclass of \<open>int\<close>. \<open>None\<close>, lists and dicts raise
  \<open>TypeError\<close>.
\<close>

fun py_float :: "(int \<Rightarrow> error + pyfloat) \<Rightarrow> (string \<Rightarrow> error + pyfloat) \<Rightarrow> json \<Rightarrow> error + pyfloat" where
  "py_float float_of_int float_of_str (JFloat x) = Inr x"
| "py_float float_of_int float_of_str (JInt n) = float_of_int n"
| "py_float float_of_int float_of_str (JBool b) = float_of_int (if b then 1 else 0)"
| "py_float float_of_int float_of_str (JStr s) = float_of_str s"
| "py_float float_of_int float_of_str v = Inl TypeError"

text \<open>
  The metadata branch of the loop body. \<open>json.loads\<close> is a parameter of the model: it
  returns the parsed value or raises. Only \<open>JSONDecodeError\<close> is caught and replaced by
  the fallback dict; every other exception of the parser (\<open>RecursionError\<close> on deep
  nesting, \<open>ValueError\<close> on an integer literal beyond the digit limit, \<open>MemoryError\<close>)
  leaves the \<open>try\<close> statement and ends the call.
\<close>

definition metadata_of :: "(string \<Rightarrow> error + json) \<Rightarrow> json \<Rightarrow> error + json" where
  "metadata_of json_loads metadata =
     (case metadata of
        JStr s \<Rightarrow> if s \<noteq> []
                  then (case json_loads s of
                          Inl e \<Rightarrow> if e = JSONDecodeError then Inr (JObj [(''raw'', JStr s)]) else Inl e
                        | Inr v \<Rightarrow> Inr v)
                  else Inr (JObj [])
      | _ \<Rightarrow> Inr (JObj []))"

text \<open>The highlight branch of the loop body; \<open>JNull\<close> is \<open>None\<close>.\<close>

definition highlight_of :: "json \<Rightarrow> error + json" where
  "highlight_of highlights =
     (case highlights of
        JObj h \<Rightarrow>
          (let v = dict_get h ''text'' JNull;
               highlight_values = (if truthy v then v else JArr [])
           in if truthy highlight_values
              then (case iter_items highlight_values of
                      Inl e \<Rightarrow> Inl e
                    | Inr items \<Rightarrow>
                        (case strings_of items of
                           Inl e \<Rightarrow> Inl e
                         | Inr ss \<Rightarrow> Inr (JStr (join '' ... '' ss))))
              else Inr JNull)
      | _ \<Rightarrow> Inr JNull)"

text \<open>
  One iteration of \<open>for raw in payload.get("value", [])\<close>, in the order of the source:
  the metadata, the highlight, then the arguments of \<open>SearchResult(...)\<close>, of which only
  \<open>float(...)\<close> can raise. \<open>raw.get\<close> exists only on a dict.
\<close>

definition normalize_record ::
  "(string \<Rightarrow> error + json) \<Rightarrow> (int \<Rightarrow> error + pyfloat) \<Rightarrow> (string \<Rightarrow> error + pyfloat) \<Rightarrow> json
     \<Rightarrow> error + raw_SearchResult" where
  "normalize_record json_loads float_of_int float_of_str raw =
     (case raw of
        JObj d \<Rightarrow>
          (case metadata_of json_loads (dict_get d ''metadata_json'' JNull) of
             Inl e \<Rightarrow> Inl e
           | Inr metadata_dict \<Rightarrow>
               (case highlight_of (dict_get d ''@search.highlights'' (JObj [])) of
                  Inl e \<Rightarrow> Inl e
                | Inr highlight \<Rightarrow>
                    (case py_float float_of_int float_of_str
                            (dict_get d ''@search.score'' (JFloat (Finite 0))) of
                       Inl e \<Rightarrow> Inl e
                     | Inr score \<Rightarrow>
                         Inr \<lparr> rs_chunk_id = dict_get d ''id'' (JStr []),
                               rs_doc_id = dict_get d ''doc_id'' (JStr []),
                               rs_rev = dict_get d ''rev'' (JStr []),
                               rs_text = dict_get d ''text'' (JStr []),
                               rs_score = score,
                               rs_section_path = dict_get d ''section_path'' JNull,
                               rs_page_start = dict_get d ''page_start'' JNull,
                               rs_page_end = dict_get d ''page_end'' JNull,
                               rs_source_url = dict_get d ''source_url'' (JStr []),
                               rs_allowed_groups = dict_get d ''allowed_groups'' (JArr []),
                               rs_metadata = metadata_dict,
                               rs_highlights = highlight \<rparr>)))
      | _ \<Rightarrow> Inl AttributeError)"

text \<open>The loop over the records: the first exception ends the call.\<close>

fun normalize_records ::
  "(string \<Rightarrow> error + json) \<Rightarrow> (int \<Rightarrow> error + pyfloat) \<Rightarrow> (string \<Rightarrow> error + pyfloat) \<Rightarrow> json list
     \<Rightarrow> error + raw_SearchResult list" where
  "normalize_records json_loads float_of_int float_of_str [] = Inr []"
| "normalize_records json_loads float_of_int float_of_str (raw # rest) =
     (case normalize_record json_loads float_of_int float_of_str raw of
        Inl e \<Rightarrow> Inl e
      | Inr r \<Rightarrow>
          (case normalize_records json_loads float_of_int float_of_str rest of
             Inl e \<Rightarrow> Inl e
           | Inr rs \<Rightarrow> Inr (r # rs)))"

definition normalize_payload ::
  "(string \<Rightarrow> error + json) \<Rightarrow> (int \<Rightarrow> error + pyfloat) \<Rightarrow> (string \<Rightarrow> error + pyfloat) \<Rightarrow> json
     \<Rightarrow> error + raw_SearchResult list" where
  "normalize_payload json_loads float_of_int float_of_str payload =
     (case payload of
        JObj p \<Rightarrow>
          (case iter_items (dict_get p ''value'' (JArr [])) of
             Inl e \<Rightarrow> Inl e
           | Inr raws \<Rightarrow> normalize_records json_loads float_of_int float_of_str raws)
      | _ \<Rightarrow> Inl AttributeError)"

text \<open>
  \<open>retrieve\<close>. The search backend is a parameter: it takes the path and the JSON body and
  returns the parsed response, or raises.
\<close>

definition retrieve ::
  "embedder \<Rightarrow> (string \<Rightarrow> (string \<times> json) list \<Rightarrow> error + json) \<Rightarrow> (string \<Rightarrow> error + json)
     \<Rightarrow> (int \<Rightarrow> error + pyfloat) \<Rightarrow> (string \<Rightarrow> error + pyfloat)
     \<Rightarrow> retriever \<Rightarrow> string \<Rightarrow> string list \<Rightarrow> int
     \<Rightarrow> error + raw_SearchResult list" where
  "retrieve embed_texts post json_loads float_of_int float_of_str self query user_groups top_k =
     (case embed_texts [query] of
        Inl e \<Rightarrow> Inl e
      | Inr vectors \<Rightarrow>
          (case vectors of
             [] \<Rightarrow> Inl IndexError
           | vector # _ \<Rightarrow>
               (case post (''/indexes/'' @ rt_index_name self @ ''/docs/search?api-version=2023-11-01'')
                          (request_body self query vector user_groups top_k) of
                  Inl e \<Rightarrow> Inl e
                | Inr payload \<Rightarrow>
                    normalize_payload json_loads float_of_int float_of_str payload)))"

text \<open>
  Collaborators for the worked examples. \<open>deep_nesting\<close> is 1200 opening brackets, on
  which the recursive parser of \<open>json.loads\<close> raises \<open>RecursionError\<close>; \<open>example_loads\<close>
  does so on that string and rejects every other string as a syntax error, which is what
  \<open>json.loads\<close> does on the only other string the examples give it. The examples never
  reach the conversions of an \<open>int\<close> or of a string to a float: the stand-ins for them
  raise.
\<close>

definition deep_nesting :: string where
  "deep_nesting = replicate 1200 (CHR ''['')"

definition example_loads :: "string \<Rightarrow> error + json" where
  "example_loads s = (if s = deep_nesting then Inl RecursionError else Inl JSONDecodeError)"

definition unused_float_of_int :: "int \<Rightarrow> error + pyfloat" where
  "unused_float_of_int n = Inl OverflowError"

definition unused_float_of_str :: "string \<Rightarrow> error + pyfloat" where
  "unused_float_of_str s = Inl ValueError"

definition example_embed :: embedder where
  "example_embed texts = Inr [[Finite 1, Finite 0]]"

definition example_backend :: "json \<Rightarrow> string \<Rightarrow> (string \<times> json) list \<Rightarrow> error + json" where
  "example_backend payload path body = Inr payload"

section \<open>Chunker (models.py, chunking.py)\<close>

record DocumentBlock =
  blk_page :: int
  blk_kind :: string
  blk_text :: string

record DocumentRevision =
  dr_doc_id :: string
  dr_rev :: string
  dr_title :: "string option"
  dr_effective_date :: "string option"
  dr_allowed_groups :: "string list"
  dr_source_url :: string
  dr_blocks :: "DocumentBlock list"
  dr_owner :: "string option"
  dr_tags :: "string list"
  dr_hash :: "string option"

record Chunk =
  ch_chunk_id :: string
  ch_doc_id :: string
  ch_rev :: string
  ch_text :: string
  ch_page_start :: int
  ch_page_end :: int
  ch_section_path :: "string option"
  ch_token_count :: int
  ch_allowed_groups :: "string list"
  ch_source_url :: string
  ch_metadata :: "(string \<times> json) list"

record ChunkingConfig =
  target_tokens :: int
  overlap_tokens :: int
  max_tokens :: int

text \<open>The defaults of the dataclass \<open>ChunkingConfig\<close>.\<close>

definition default_config :: ChunkingConfig where
  "default_config = \<lparr> target_tokens = 500, overlap_tokens = 75, max_tokens = 800 \<rparr>"

text \<open>
  The characters \<open>str.isspace\<close> accepts among the code points below 256; \<open>str.split()\<close>
  and \<open>str.strip()\<close> without arguments cut at exactly these.
\<close>

definition is_space :: "char \<Rightarrow> bool" where
  "is_space c = (c \<in> set [CHR 0x09, CHR 0x0A, CHR 0x0B, CHR 0x0C, CHR 0x0D, CHR 0x1C,
                          CHR 0x1D, CHR 0x1E, CHR 0x1F, CHR 0x20, CHR 0x85, CHR 0xA0])"

text \<open>
  \<open>text.split()\<close>: the maximal runs of non-space characters. \<open>word\<close> is the run being
  read.
\<close>

fun split_loop :: "string \<Rightarrow> string \<Rightarrow> string list" where
  "split_loop word [] = (if word = [] then [] else [word])"
| "split_loop word (c # cs) =
     (if is_space c
      then (if word = [] then split_loop [] cs else word # split_loop [] cs)
      else split_loop (word @ [c]) cs)"

definition str_split :: "string \<Rightarrow> string list" where
  "str_split s = split_loop [] s"

definition strip :: "string \<Rightarrow> string" where
  "strip s = rev (dropWhile is_space (rev (dropWhile is_space s)))"

text \<open>
  \<open>_estimate_tokens\<close>: \<open>max(1, int(words * 1.3))\<close>. The product is a double and
  \<open>int\<close> truncates it; for a word count \<open>w \<ge> 0\<close> that is the floor of \<open>13 * w / 10\<close>
  (the double nearest to \<open>1.3\<close> lies less than \<open>5 * 10^-17\<close> above it, so the rounded
  product never crosses an integer for any word count a string in memory can have),
  which is what the model computes on \<open>int\<close>.
\<close>

definition estimate_tokens :: "string \<Rightarrow> int" where
  "estimate_tokens s = (let words = int (length (str_split s)) in max 1 ((13 * words) div 10))"

text \<open>The estimate of one block, and the sum the loops keep as a running total.\<close>

definition block_tokens :: "DocumentBlock \<Rightarrow> int" where
  "block_tokens block = estimate_tokens (blk_text block)"

definition sum_tokens :: "DocumentBlock list \<Rightarrow> int" where
  "sum_tokens blocks = sum_list (map block_tokens blocks)"

text \<open>
  \<open>_tail_within_tokens\<close>: the loop over \<open>reversed(blocks)\<close> with its locals \<open>tail\<close> and
  \<open>total\<close> (here \<open>tot\<close>); \<open>break\<close> returns the tail collected so far.
\<close>

fun tail_loop :: "int \<Rightarrow> DocumentBlock list \<Rightarrow> int \<Rightarrow> DocumentBlock list \<Rightarrow> DocumentBlock list" where
  "tail_loop limit tail tot [] = tail"
| "tail_loop limit tail tot (block # rest) =
     (if tot + block_tokens block > limit \<and> tail \<noteq> []
      then tail
      else tail_loop limit (tail @ [block]) (tot + block_tokens block) rest)"

definition tail_within_tokens :: "DocumentBlock list \<Rightarrow> int \<Rightarrow> DocumentBlock list" where
  "tail_within_tokens blocks limit = rev (tail_loop limit [] 0 (rev blocks))"

text \<open>
  \<open>_build_section_path\<close>. \<open>dict.fromkeys(headings)\<close> keeps the first occurrence of each
  heading in order; \<open>remdups\<close> keeps the last one, hence the two reversals.
\<close>

definition build_section_path :: "DocumentBlock list \<Rightarrow> string option" where
  "build_section_path blocks =
     (let headings = map (\<lambda>block. strip (blk_text block))
                       (filter (\<lambda>block. blk_kind block = ''heading'') blocks)
      in if headings = [] then None
         else Some (join '' > '' (rev (remdups (rev headings)))))"

text \<open>\<open>f"{chunk_index:04d}"\<close>: at least four characters, padded with zeros after the sign.\<close>

definition zero_pad :: "nat \<Rightarrow> string \<Rightarrow> string" where
  "zero_pad width s = replicate (width - length s) (CHR ''0'') @ s"

definition format_04d :: "int \<Rightarrow> string" where
  "format_04d i = (if i < 0 then CHR ''-'' # zero_pad 3 (digits (nat (- i)))
                   else zero_pad 4 (digits (nat i)))"

definition newline :: string where
  "newline = [CHR 0x0A]"

text \<open>
  The \<open>Chunk(...)\<close> that \<open>flush\<close> builds from the buffer. \<open>min\<close> and \<open>max\<close> over the
  pages are taken of a buffer that \<open>flush\<close> has found non-empty.
\<close>

definition make_chunk :: "DocumentRevision \<Rightarrow> int \<Rightarrow> DocumentBlock list \<Rightarrow> Chunk" where
  "make_chunk doc chunk_index buffer =
     (let text = join newline (map blk_text buffer) in
      \<lparr> ch_chunk_id = dr_doc_id doc @ '':'' @ dr_rev doc @ '':'' @ format_04d chunk_index,
        ch_doc_id = dr_doc_id doc,
        ch_rev = dr_rev doc,
        ch_text = text,
        ch_page_start = Min (set (map blk_page buffer)),
        ch_page_end = Max (set (map blk_page buffer)),
        ch_section_path = build_section_path buffer,
        ch_token_count = estimate_tokens text,
        ch_allowed_groups = dr_allowed_groups doc,
        ch_source_url = dr_source_url doc,
        ch_metadata = [(''chunk_index'', JInt chunk_index),
                       (''title'', case dr_title doc of None \<Rightarrow> JNull | Some t \<Rightarrow> JStr t)] \<rparr>)"

text \<open>The locals of \<open>chunk_document\<close> that its closure \<open>flush\<close> reads and rebinds.\<close>

record chunker_state =
  cs_chunks :: "Chunk list"
  cs_buffer :: "DocumentBlock list"
  cs_buffer_tokens :: int
  cs_chunk_index :: int

definition flush :: "DocumentRevision \<Rightarrow> ChunkingConfig \<Rightarrow> bool \<Rightarrow> chunker_state \<Rightarrow> chunker_state" where
  "flush doc config force st =
     (if cs_buffer st = [] then st
      else if \<not> force \<and> cs_buffer_tokens st < target_tokens config then st
      else
        let buffer' = tail_within_tokens (cs_buffer st) (overlap_tokens config) in
        \<lparr> cs_chunks = cs_chunks st @ [make_chunk doc (cs_chunk_index st) (cs_buffer st)],
          cs_buffer = buffer',
          cs_buffer_tokens = sum_tokens buffer',
          cs_chunk_index = cs_chunk_index st + 1 \<rparr>)"

text \<open>One iteration of \<open>for block in doc.blocks\<close>.\<close>

definition chunk_step :: "DocumentRevision \<Rightarrow> ChunkingConfig \<Rightarrow> chunker_state \<Rightarrow> DocumentBlock \<Rightarrow> chunker_state" where
  "chunk_step doc config st block =
     (let st1 = st \<lparr> cs_buffer := cs_buffer st @ [block],
                     cs_buffer_tokens := cs_buffer_tokens st + block_tokens block \<rparr>;
          st2 = (if cs_buffer_tokens st1 \<ge> target_tokens config then flush doc config False st1 else st1);
          st3 = (if cs_buffer_tokens st2 \<ge> max_tokens config then flush doc config True st2 else st2)
      in st3)"

definition initial_state :: chunker_state where
  "initial_state = \<lparr> cs_chunks = [], cs_buffer = [], cs_buffer_tokens = 0, cs_chunk_index = 0 \<rparr>"

text \<open>\<open>config or ChunkingConfig()\<close>: a dataclass instance is truthy, only \<open>None\<close> is replaced.\<close>

definition chunk_document :: "DocumentRevision \<Rightarrow> ChunkingConfig option \<Rightarrow> Chunk list" where
  "chunk_document doc config_opt =
     (let config = (case config_opt of None \<Rightarrow> default_config | Some c \<Rightarrow> c)
      in cs_chunks (flush doc config True
                      (foldl (chunk_step doc config) initial_state (dr_blocks doc))))"

text \<open>
  What the proofs say of one produced chunk: it is built from a non-empty run \<open>bs\<close> of
  consecutive whole blocks of the document, and either the run has at most two blocks or
  the per-block estimates of all its blocks but the last stay below \<open>target_tokens\<close>.
\<close>

definition chunk_from_run :: "DocumentRevision \<Rightarrow> int \<Rightarrow> DocumentBlock list \<Rightarrow> Chunk \<Rightarrow> bool" where
  "chunk_from_run doc target pre c =
     (\<exists>chunk_index bs. c = make_chunk doc chunk_index bs \<and> bs \<noteq> [] \<and> sublist bs pre \<and>
        (length bs \<le> 2 \<or> sum_tokens (butlast bs) < target))"

text \<open>
  The loop invariant of \<open>chunk_document\<close> after the blocks \<open>pre\<close> have been read: the
  buffer is a suffix of what was read, \<open>buffer_tokens\<close> is the sum of its per-block
  estimates, the buffer is below target or holds at most one block, and every chunk
  produced so far is as \<open>chunk_from_run\<close> says.
\<close>

definition chunker_inv :: "DocumentRevision \<Rightarrow> ChunkingConfig \<Rightarrow> DocumentBlock list \<Rightarrow> chunker_state \<Rightarrow> bool" where
  "chunker_inv doc config pre st =
     (suffix (cs_buffer st) pre \<and>
      cs_buffer_tokens st = sum_tokens (cs_buffer st) \<and>
      (cs_buffer_tokens st < target_tokens config \<or> length (cs_buffer st) \<le> 1) \<and>
      list_all (chunk_from_run doc (target_tokens config) pre) (cs_chunks st))"

text \<open>Documents and configurations for the worked examples below.\<close>

definition example_doc :: "string list \<Rightarrow> DocumentRevision" where
  "example_doc texts =
     \<lparr> dr_doc_id = ''D'', dr_rev = ''1'', dr_title = None, dr_effective_date = None,
       dr_allowed_groups = [], dr_source_url = [],
       dr_blocks = map (\<lambda>t. \<lparr> blk_page = 1, blk_kind = ''paragraph'', blk_text = t \<rparr>) texts,
       dr_owner = None, dr_tags = [], dr_hash = None \<rparr>"

definition example_config :: "int \<Rightarrow> int \<Rightarrow> int \<Rightarrow> ChunkingConfig" where
  "example_config target overlap limit =
     \<lparr> target_tokens = target, overlap_tokens = overlap, max_tokens = limit \<rparr>"

text \<open>
  What the proofs say of one normalized record \<open>r\<close> built from the backend record \<open>d\<close>:
  a metadata payload that is a non-empty string on which \<open>json.loads\<close> raises
  \<open>JSONDecodeError\<close> is kept under the key \<open>raw\<close>, and every field missing from \<open>d\<close> has
  its default.
\<close>

definition unparseable_metadata_kept :: "(string \<Rightarrow> error + json) \<Rightarrow> (string \<times> json) list \<Rightarrow> raw_SearchResult \<Rightarrow> bool" where
  "unparseable_metadata_kept json_loads d r =
     (case map_of d ''metadata_json'' of
        Some (JStr s) \<Rightarrow> (s \<noteq> [] \<and> json_loads s = Inl JSONDecodeError
                          \<longrightarrow> rs_metadata r = JObj [(''raw'', JStr s)])
      | _ \<Rightarrow> True)"

definition missing_fields_default :: "(string \<times> json) list \<Rightarrow> raw_SearchResult \<Rightarrow> bool" where
  "missing_fields_default d r =
     ((map_of d ''id'' = None \<longrightarrow> rs_chunk_id r = JStr []) \<and>
      (map_of d ''doc_id'' = None \<longrightarrow> rs_doc_id r = JStr []) \<and>
      (map_of d ''rev'' = None \<longrightarrow> rs_rev r = JStr []) \<and>
      (map_of d ''text'' = None \<longrightarrow> rs_text r = JStr []) \<and>
      (map_of d ''@search.score'' = None \<longrightarrow> rs_score r = Finite 0) \<and>
      (map_of d ''section_path'' = None \<longrightarrow> rs_section_path r = JNull) \<and>
      (map_of d ''page_start'' = None \<longrightarrow> rs_page_start r = JNull) \<and>
      (map_of d ''page_end'' = None \<longrightarrow> rs_page_end r = JNull) \<and>
      (map_of d ''source_url'' = None \<longrightarrow> rs_source_url r = JStr []) \<and>
      (map_of d ''allowed_groups'' = None \<longrightarrow> rs_allowed_groups r = JArr []) \<and>
      (map_of d ''metadata_json'' = None \<longrightarrow> rs_metadata r = JObj []) \<and>
      (map_of d ''@search.highlights'' = None \<longrightarrow> rs_highlights r = JNull))"

text \<open>
  Nothing raises on the record \<open>d\<close>: the metadata parser returns or raises
  \<open>JSONDecodeError\<close>, \<open>float\<close> converts the score (absent, it is \<open>0.0\<close>), and the highlight
  fragments join (absent, there is nothing to join).
\<close>

definition record_converts ::
  "(string \<Rightarrow> error + json) \<Rightarrow> (int \<Rightarrow> error + pyfloat) \<Rightarrow> (string \<Rightarrow> error + pyfloat)
     \<Rightarrow> (string \<times> json) list \<Rightarrow> bool" where
  "record_converts json_loads float_of_int float_of_str d =
     (case metadata_of json_loads (dict_get d ''metadata_json'' JNull) of
        Inl e \<Rightarrow> False
      | Inr metadata_dict \<Rightarrow>
          (case highlight_of (dict_get d ''@search.highlights'' (JObj [])) of
             Inl e \<Rightarrow> False
           | Inr highlight \<Rightarrow>
               (case py_float float_of_int float_of_str
                       (dict_get d ''@search.score'' (JFloat (Finite 0))) of
                  Inl e \<Rightarrow> False
                | Inr score \<Rightarrow> True)))"

text \<open>A group identifier that holds a quote, for the worked examples of the filter.\<close>

definition injected_group :: string where
  "injected_group = ''a'' @ [quote] @ '') or allowed_groups/any(g: g eq '' @ [quote] @ ''b''"

section \<open>Grounding assembler: properties of \<open>build_grounding_pack\<close>\<close>

lemma kept_candidates_simps [simp]:
  "kept_candidates [] vs = []"
  "kept_candidates cs [] = []"
  "kept_candidates (c # cs) (v # vs) = (if v = Kept then c # kept_candidates cs vs else kept_candidates cs vs)"
  by (simp_all add: kept_candidates_def)

declare pack_loop.simps(2) [simp del]
declare verdicts.simps(2) [simp del]

lemma step_cases [case_names Dup Cap Break Keep]:
  fixes c :: SearchResult and seen :: "dedup_key set" and counts :: "string \<rightharpoonup> int"
    and pack :: "GroundingChunk list" and m :: int and d :: bool
  obtains
    "candidate_key c \<in> seen"
  | "candidate_key c \<notin> seen" "d" "max 2 (m div 3) \<le> get_count counts (sr_doc_id c)"
  | "candidate_key c \<notin> seen" "\<not> (d \<and> max 2 (m div 3) \<le> get_count counts (sr_doc_id c))"
      "m \<le> int (Suc (length pack))"
  | "candidate_key c \<notin> seen" "\<not> (d \<and> max 2 (m div 3) \<le> get_count counts (sr_doc_id c))"
      "\<not> m \<le> int (Suc (length pack))"
  by blast

lemma pack_loop_dup:
  "candidate_key c \<in> seen \<Longrightarrow>
   pack_loop m d seen counts pack (c # cs) = pack_loop m d seen counts pack cs"
  by (simp add: pack_loop.simps(2))

lemma pack_loop_cap:
  "candidate_key c \<notin> seen \<Longrightarrow> d \<Longrightarrow> max 2 (m div 3) \<le> get_count counts (sr_doc_id c) \<Longrightarrow>
   pack_loop m d seen counts pack (c # cs) =
   pack_loop m d (insert (candidate_key c) seen) counts pack cs"
  by (simp only: pack_loop.simps(2) if_True if_False simp_thms)

lemma pack_loop_break:
  "candidate_key c \<notin> seen \<Longrightarrow> \<not> (d \<and> max 2 (m div 3) \<le> get_count counts (sr_doc_id c)) \<Longrightarrow>
   m \<le> int (Suc (length pack)) \<Longrightarrow>
   pack_loop m d seen counts pack (c # cs) = pack @ [grounding_chunk_of c]"
  by (simp only: pack_loop.simps(2) if_True if_False simp_thms length_append_singleton)

lemma pack_loop_keep:
  "candidate_key c \<notin> seen \<Longrightarrow> \<not> (d \<and> max 2 (m div 3) \<le> get_count counts (sr_doc_id c)) \<Longrightarrow>
   \<not> m \<le> int (Suc (length pack)) \<Longrightarrow>
   pack_loop m d seen counts pack (c # cs) =
   pack_loop m d (insert (candidate_key c) seen)
     (if d then counts(sr_doc_id c \<mapsto> get_count counts (sr_doc_id c) + 1) else counts)
     (pack @ [grounding_chunk_of c]) cs"
  by (simp only: pack_loop.simps(2) if_True if_False simp_thms length_append_singleton)

lemma verdicts_dup:
  "candidate_key c \<in> seen \<Longrightarrow>
   verdicts m d seen counts n (c # cs) = Duplicate # verdicts m d seen counts n cs"
  by (simp add: verdicts.simps(2))

lemma verdicts_cap:
  "candidate_key c \<notin> seen \<Longrightarrow> d \<Longrightarrow> max 2 (m div 3) \<le> get_count counts (sr_doc_id c) \<Longrightarrow>
   verdicts m d seen counts n (c # cs) =
   Capped # verdicts m d (insert (candidate_key c) seen) counts n cs"
  by (simp only: verdicts.simps(2) if_True if_False simp_thms)

lemma verdicts_break:
  "candidate_key c \<notin> seen \<Longrightarrow> \<not> (d \<and> max 2 (m div 3) \<le> get_count counts (sr_doc_id c)) \<Longrightarrow>
   m \<le> int (Suc n) \<Longrightarrow>
   verdicts m d seen counts n (c # cs) = [Kept]"
  by (simp only: verdicts.simps(2) if_True if_False simp_thms)

lemma verdicts_keep:
  "candidate_key c \<notin> seen \<Longrightarrow> \<not> (d \<and> max 2 (m div 3) \<le> get_count counts (sr_doc_id c)) \<Longrightarrow>
   \<not> m \<le> int (Suc n) \<Longrightarrow>
   verdicts m d seen counts n (c # cs) =
   Kept # verdicts m d (insert (candidate_key c) seen)
     (if d then counts(sr_doc_id c \<mapsto> get_count counts (sr_doc_id c) + 1) else counts)
     (Suc n) cs"
  by (simp only: verdicts.simps(2) if_True if_False simp_thms)

lemma pack_loop_trace:
  "pack_loop m d seen counts pack cs =
     pack @ map grounding_chunk_of (kept_candidates cs (verdicts m d seen counts (length pack) cs))"
proof (induction cs arbitrary: seen counts pack)
  case Nil
  show ?case by simp
next
  case (Cons c cs)
  show ?case
  proof (cases rule: step_cases [where c = c and seen = seen and d = d and m = m and counts = counts and pack = pack])
    case Dup
    show ?thesis unfolding pack_loop_dup [OF Dup] verdicts_dup [OF Dup] Cons.IH by simp
  next
    case Cap
    show ?thesis unfolding pack_loop_cap [OF Cap] verdicts_cap [OF Cap] Cons.IH by simp
  next
    case Break
    show ?thesis unfolding pack_loop_break [OF Break] verdicts_break [OF Break] by simp
  next
    case Keep
    show ?thesis
      unfolding pack_loop_keep [OF Keep] verdicts_keep [OF Keep] Cons.IH by simp
  qed
qed

lemma subseq_kept_candidates: "subseq (kept_candidates cs vs) cs"
proof (induction cs arbitrary: vs)
  case Nil
  show ?case by simp
next
  case (Cons c cs)
  show ?case
  proof (cases vs)
    case Nil
    then show ?thesis by simp
  next
    case (Cons v vs')
    then show ?thesis using Cons.IH [of vs'] by (simp add: list_emb_Cons)
  qed
qed

lemma pack_key_grounding_chunk_of [simp]: "pack_key (grounding_chunk_of c) = candidate_key c"
  by (simp add: pack_key_def grounding_chunk_of_def candidate_key_def)

lemma pack_loop_length:
  "int (length pack) < m \<Longrightarrow> int (length (pack_loop m d seen counts pack cs)) \<le> m"
proof (induction cs arbitrary: seen counts pack)
  case Nil
  then show ?case by simp
next
  case (Cons c cs)
  show ?case
  proof (cases rule: step_cases [where c = c and seen = seen and d = d and m = m and counts = counts and pack = pack])
    case Dup
    show ?thesis unfolding pack_loop_dup [OF Dup] by (rule Cons.IH [OF Cons.prems])
  next
    case Cap
    show ?thesis unfolding pack_loop_cap [OF Cap] by (rule Cons.IH [OF Cons.prems])
  next
    case Break
    show ?thesis unfolding pack_loop_break [OF Break] using Cons.prems by simp
  next
    case Keep
    have "int (length (pack @ [grounding_chunk_of c])) < m" using Keep(3) by simp
    then show ?thesis unfolding pack_loop_keep [OF Keep] by (rule Cons.IH)
  qed
qed

lemma pack_loop_length_nonpos:
  "m \<le> 0 \<Longrightarrow> length (pack_loop m d seen counts [] cs) \<le> 1"
proof (induction cs arbitrary: seen counts)
  case Nil
  then show ?case by simp
next
  case (Cons c cs)
  show ?case
  proof (cases rule: step_cases [where c = c and seen = seen and d = d and m = m and counts = counts and pack = "[]"])
    case Dup
    show ?thesis unfolding pack_loop_dup [OF Dup] by (rule Cons.IH [OF Cons.prems])
  next
    case Cap
    show ?thesis unfolding pack_loop_cap [OF Cap] by (rule Cons.IH [OF Cons.prems])
  next
    case Break
    show ?thesis unfolding pack_loop_break [OF Break] by simp
  next
    case Keep
    then show ?thesis using Cons.prems by simp
  qed
qed

lemma pack_loop_distinct:
  "distinct (map pack_key pack) \<Longrightarrow> pack_key ` set pack \<subseteq> seen \<Longrightarrow>
   distinct (map pack_key (pack_loop m d seen counts pack cs))"
proof (induction cs arbitrary: seen counts pack)
  case Nil
  then show ?case by simp
next
  case (Cons c cs)
  show ?case
  proof (cases rule: step_cases [where c = c and seen = seen and d = d and m = m and counts = counts and pack = pack])
    case Dup
    show ?thesis unfolding pack_loop_dup [OF Dup] by (rule Cons.IH [OF Cons.prems])
  next
    case Cap
    have "pack_key ` set pack \<subseteq> insert (candidate_key c) seen" using Cons.prems(2) by blast
    then show ?thesis unfolding pack_loop_cap [OF Cap] by (rule Cons.IH [OF Cons.prems(1)])
  next
    case Break
    have "candidate_key c \<notin> pack_key ` set pack" using Break(1) Cons.prems(2) by blast
    then show ?thesis unfolding pack_loop_break [OF Break] using Cons.prems(1) by simp
  next
    case Keep
    have new: "candidate_key c \<notin> pack_key ` set pack" using Keep(1) Cons.prems(2) by blast
    have d: "distinct (map pack_key (pack @ [grounding_chunk_of c]))"
      using new Cons.prems(1) by simp
    have s: "pack_key ` set (pack @ [grounding_chunk_of c]) \<subseteq> insert (candidate_key c) seen"
      using Cons.prems(2) by auto
    show ?thesis unfolding pack_loop_keep [OF Keep] by (rule Cons.IH [OF d s])
  qed
qed

lemma find_skip_first:
  assumes "find (\<lambda>c. candidate_key c = pack_key g) cs = Some c'" and "g = grounding_chunk_of c'"
    and "candidate_key c \<noteq> candidate_key c'"
  shows "find (\<lambda>c. candidate_key c = pack_key g) (c # cs) = Some c'"
  using assms by simp

lemma pack_loop_first:
  "g \<in> set (pack_loop m d seen counts pack cs) \<Longrightarrow>
   g \<in> set pack \<or>
   (\<exists>c. find (\<lambda>c. candidate_key c = pack_key g) cs = Some c \<and> g = grounding_chunk_of c
        \<and> candidate_key c \<notin> seen)"
proof (induction cs arbitrary: seen counts pack)
  case Nil
  then show ?case by simp
next
  case (Cons c cs)
  let ?P = "\<lambda>c. candidate_key c = pack_key g"
  have here: "find ?P (c # cs) = Some c" if "g = grounding_chunk_of c"
    using that by simp
  show ?case
  proof (cases rule: step_cases [where c = c and seen = seen and d = d and m = m and counts = counts and pack = pack])
    case Dup
    from Cons.prems have "g \<in> set (pack_loop m d seen counts pack cs)"
      unfolding pack_loop_dup [OF Dup] .
    from Cons.IH [OF this] show ?thesis
    proof
      assume "g \<in> set pack"
      then show ?thesis ..
    next
      assume "\<exists>c'. find ?P cs = Some c' \<and> g = grounding_chunk_of c' \<and> candidate_key c' \<notin> seen"
      then obtain c' where f: "find ?P cs = Some c'" and g: "g = grounding_chunk_of c'"
        and n: "candidate_key c' \<notin> seen" by blast
      have "candidate_key c \<noteq> candidate_key c'" using Dup n by auto
      from find_skip_first [OF f g this] g n show ?thesis by blast
    qed
  next
    case Cap
    from Cons.prems
    have "g \<in> set (pack_loop m d (insert (candidate_key c) seen) counts pack cs)"
      unfolding pack_loop_cap [OF Cap] .
    from Cons.IH [OF this] show ?thesis
    proof
      assume "g \<in> set pack"
      then show ?thesis ..
    next
      assume "\<exists>c'. find ?P cs = Some c' \<and> g = grounding_chunk_of c'
                \<and> candidate_key c' \<notin> insert (candidate_key c) seen"
      then obtain c' where f: "find ?P cs = Some c'" and g: "g = grounding_chunk_of c'"
        and n: "candidate_key c' \<notin> insert (candidate_key c) seen" by blast
      have "candidate_key c \<noteq> candidate_key c'" using n by auto
      from find_skip_first [OF f g this] g n show ?thesis by blast
    qed
  next
    case Break
    from Cons.prems have "g \<in> set pack \<or> g = grounding_chunk_of c"
      unfolding pack_loop_break [OF Break] by auto
    then show ?thesis using here Break(1) by blast
  next
    case Keep
    from Cons.prems
    have "g \<in> set (pack_loop m d (insert (candidate_key c) seen)
       (if d then counts(sr_doc_id c \<mapsto> get_count counts (sr_doc_id c) + 1) else counts)
       (pack @ [grounding_chunk_of c]) cs)"
      unfolding pack_loop_keep [OF Keep] .
    from Cons.IH [OF this] show ?thesis
    proof
      assume "g \<in> set (pack @ [grounding_chunk_of c])"
      then have "g \<in> set pack \<or> g = grounding_chunk_of c" by auto
      then show ?thesis using here Keep(1) by blast
    next
      assume "\<exists>c'. find ?P cs = Some c' \<and> g = grounding_chunk_of c'
                \<and> candidate_key c' \<notin> insert (candidate_key c) seen"
      then obtain c' where f: "find ?P cs = Some c'" and g: "g = grounding_chunk_of c'"
        and n: "candidate_key c' \<notin> insert (candidate_key c) seen" by blast
      have "candidate_key c \<noteq> candidate_key c'" using n by auto
      from find_skip_first [OF f g this] g n show ?thesis by blast
    qed
  qed
qed

lemma pack_loop_counts:
  assumes "\<And>doc. get_count counts doc = int (length (filter (\<lambda>g. gc_doc_id g = doc) pack))"
    and "\<And>doc. get_count counts doc \<le> max 2 (m div 3)"
  shows "int (length (filter (\<lambda>g. gc_doc_id g = doc) (pack_loop m True seen counts pack cs)))
           \<le> max 2 (m div 3)"
  using assms
proof (induction cs arbitrary: seen counts pack)
  case Nil
  show ?case using Nil(1) [of doc] Nil(2) [of doc] by simp
next
  case (Cons c cs)
  show ?case
  proof (cases rule: step_cases [where c = c and seen = seen and d = True and m = m and counts = counts and pack = pack])
    case Dup
    show ?thesis unfolding pack_loop_dup [OF Dup] by (rule Cons.IH [OF Cons.prems])
  next
    case Cap
    show ?thesis unfolding pack_loop_cap [OF Cap] by (rule Cons.IH [OF Cons.prems])
  next
    case Break
    have lt: "get_count counts (sr_doc_id c) < max 2 (m div 3)" using Break(2) by (simp only: simp_thms not_le)
    have gd: "gc_doc_id (grounding_chunk_of c) = sr_doc_id c" by (simp add: grounding_chunk_of_def)
    show ?thesis unfolding pack_loop_break [OF Break]
      using Cons.prems(1) [of doc] Cons.prems(2) [of doc] lt gd by auto
  next
    case Keep
    have lt: "get_count counts (sr_doc_id c) < max 2 (m div 3)" using Keep(2) by (simp only: simp_thms not_le)
    have gd: "gc_doc_id (grounding_chunk_of c) = sr_doc_id c" by (simp add: grounding_chunk_of_def)
    let ?counts = "counts(sr_doc_id c \<mapsto> get_count counts (sr_doc_id c) + 1)"
    have a: "\<And>doc. get_count ?counts doc
        = int (length (filter (\<lambda>g. gc_doc_id g = doc) (pack @ [grounding_chunk_of c])))"
      using Cons.prems(1) gd by (simp add: get_count_def)
    have b: "\<And>doc. get_count ?counts doc \<le> max 2 (m div 3)"
    proof -
      fix doc
      show "get_count ?counts doc \<le> max 2 (m div 3)"
      proof (cases "doc = sr_doc_id c")
        case True
        then show ?thesis using lt by (simp add: get_count_def)
      next
        case False
        then show ?thesis using Cons.prems(2) [of doc] by (simp add: get_count_def)
      qed
    qed
    show ?thesis unfolding pack_loop_keep [OF Keep] if_True by (rule Cons.IH [OF a b])
  qed
qed

lemma verdicts_length: "length (verdicts m d seen counts n cs) \<le> length cs"
proof (induction cs arbitrary: seen counts n)
  case Nil
  show ?case by simp
next
  case (Cons c cs)
  show ?case
  proof (cases rule: step_cases [where c = c and seen = seen and d = d and m = m and counts = counts and pack = "replicate n undefined"])
    case Dup
    show ?thesis unfolding verdicts_dup [OF Dup] using Cons.IH by simp
  next
    case Cap
    show ?thesis unfolding verdicts_cap [OF Cap] using Cons.IH by simp
  next
    case Break
    then have "m \<le> int (Suc n)" by simp
    from verdicts_break [OF Break(1,2) this] show ?thesis by simp
  next
    case Keep
    then have "\<not> m \<le> int (Suc n)" by simp
    from verdicts_keep [OF Keep(1,2) this] show ?thesis using Cons.IH by simp
  qed
qed

text \<open>A verdict is \<open>Duplicate\<close> exactly when the key was met before.\<close>

lemma verdicts_duplicate_iff:
  "i < length (verdicts m d seen counts n cs) \<Longrightarrow>
   verdicts m d seen counts n cs ! i = Duplicate \<longleftrightarrow>
     (candidate_key (cs ! i) \<in> seen \<or> (\<exists>j<i. candidate_key (cs ! j) = candidate_key (cs ! i)))"
proof (induction cs arbitrary: seen counts n i)
  case Nil
  then show ?case by simp
next
  case (Cons c cs)
  have ex_Suc: "\<And>P k. (\<exists>j<Suc k. P j) \<longleftrightarrow> (P 0 \<or> (\<exists>j<k. P (Suc j)))"
    using less_Suc_eq_0_disj by auto
  show ?case
  proof (cases rule: step_cases [where c = c and seen = seen and d = d and m = m and counts = counts and pack = "replicate n undefined"])
    case Dup
    note eq = verdicts_dup [OF Dup]
    show ?thesis
    proof (cases i)
      case 0
      then show ?thesis using Dup by (simp add: eq)
    next
      case (Suc k)
      then have "k < length (verdicts m d seen counts n cs)" using Cons.prems by (simp add: eq)
      from Cons.IH [OF this] show ?thesis using Dup Suc by (auto simp add: eq ex_Suc)
    qed
  next
    case Cap
    note eq = verdicts_cap [OF Cap]
    show ?thesis
    proof (cases i)
      case 0
      then show ?thesis using Cap(1) by (simp add: eq)
    next
      case (Suc k)
      then have "k < length (verdicts m d (insert (candidate_key c) seen) counts n cs)"
        using Cons.prems by (simp add: eq)
      from Cons.IH [OF this] show ?thesis using Suc by (auto simp add: eq ex_Suc)
    qed
  next
    case Break
    then have "m \<le> int (Suc n)" by simp
    note eq = verdicts_break [OF Break(1,2) this]
    from Cons.prems have "i = 0" by (simp add: eq)
    then show ?thesis using Break(1) by (simp add: eq)
  next
    case Keep
    then have "\<not> m \<le> int (Suc n)" by simp
    note eq = verdicts_keep [OF Keep(1,2) this]
    show ?thesis
    proof (cases i)
      case 0
      then show ?thesis using Keep(1) by (simp add: eq)
    next
      case (Suc k)
      then have "k < length (verdicts m d (insert (candidate_key c) seen)
          (if d then counts(sr_doc_id c \<mapsto> get_count counts (sr_doc_id c) + 1) else counts) (Suc n) cs)"
        using Cons.prems by (simp add: eq)
      from Cons.IH [OF this] show ?thesis using Suc by (auto simp add: eq ex_Suc)
    qed
  qed
qed

lemma set_kept_candidates:
  "length vs \<le> length cs \<Longrightarrow>
   set (kept_candidates cs vs) = {cs ! j | j. j < length vs \<and> vs ! j = Kept}"
  by (auto simp add: kept_candidates_def set_zip image_iff) force+

text \<open>
  Claim C3 (length at most \<open>max_chunks\<close>, also for \<open>max_chunks = 0\<close>, order kept). The
  loop tests \<open>len(pack) >= max_chunks\<close> only after it has appended, so with
  \<open>max_chunks = 0\<close> every non-empty candidate list yields a pack of one entry, which is
  longer than \<open>max_chunks\<close>. For positive \<open>max_chunks\<close> the bound holds
  (\<open>build_grounding_pack_length\<close>), and the pack always follows the input order
  (\<open>build_grounding_pack_order\<close>).
\<close>

theorem build_grounding_pack_max_chunks_zero:
  "length (build_grounding_pack (candidate # rest) 0 diversify) = 1"
  by (simp add: build_grounding_pack_def pack_loop.simps(2) get_count_def)

lemma build_grounding_pack_length:
  "0 < max_chunks \<Longrightarrow> int (length (build_grounding_pack candidates max_chunks diversify)) \<le> max_chunks"
  unfolding build_grounding_pack_def by (rule pack_loop_length) simp

lemma build_grounding_pack_order:
  "\<exists>ks. subseq ks candidates \<and>
     build_grounding_pack candidates max_chunks diversify = map grounding_chunk_of ks"
  unfolding build_grounding_pack_def pack_loop_trace [of _ _ _ _ "[]"]
  using subseq_kept_candidates by auto

text \<open>
  Claim C7: no two entries of the pack share the deduplication key
  \<open>(doc_id, section_path, page_start, page_end)\<close>, and every entry of the pack is built
  from the first candidate, in input order, that carries its key.
\<close>

theorem build_grounding_pack_dedup:
  "distinct (map pack_key (build_grounding_pack candidates max_chunks diversify)) \<and>
   (\<forall>g \<in> set (build_grounding_pack candidates max_chunks diversify).
      \<exists>c. find (\<lambda>c. candidate_key c = pack_key g) candidates = Some c \<and> g = grounding_chunk_of c)"
proof
  show "distinct (map pack_key (build_grounding_pack candidates max_chunks diversify))"
    unfolding build_grounding_pack_def by (rule pack_loop_distinct) simp_all
next
  show "\<forall>g \<in> set (build_grounding_pack candidates max_chunks diversify).
      \<exists>c. find (\<lambda>c. candidate_key c = pack_key g) candidates = Some c \<and> g = grounding_chunk_of c"
  proof
    fix g
    assume "g \<in> set (build_grounding_pack candidates max_chunks diversify)"
    then have "g \<in> set (pack_loop max_chunks diversify {} Map.empty [] candidates)"
      by (simp only: build_grounding_pack_def)
    from pack_loop_first [OF this]
    show "\<exists>c. find (\<lambda>c. candidate_key c = pack_key g) candidates = Some c \<and> g = grounding_chunk_of c"
      by auto
  qed
qed

lemmas example_simps =
  build_grounding_pack_def pack_loop.simps(2) get_count_def candidate_key_def
  example_candidate_def pack_key_def grounding_chunk_of_def

theorem build_grounding_pack_dedup_witness:
  "build_grounding_pack
     [example_candidate ''c1'' ''docA'' 1, example_candidate ''c2'' ''docA'' 1,
      example_candidate ''c3'' ''docB'' 1] 5 True
   = [grounding_chunk_of (example_candidate ''c1'' ''docA'' 1),
      grounding_chunk_of (example_candidate ''c3'' ''docB'' 1)]
   \<and> distinct (map pack_key (build_grounding_pack
     [example_candidate ''c1'' ''docA'' 1, example_candidate ''c2'' ''docA'' 1,
      example_candidate ''c3'' ''docB'' 1] 5 True))
   \<and> find (\<lambda>c. candidate_key c = pack_key (grounding_chunk_of (example_candidate ''c1'' ''docA'' 1)))
       [example_candidate ''c1'' ''docA'' 1, example_candidate ''c2'' ''docA'' 1,
        example_candidate ''c3'' ''docB'' 1] = Some (example_candidate ''c1'' ''docA'' 1)"
  using build_grounding_pack_dedup [of
     "[example_candidate ''c1'' ''docA'' 1, example_candidate ''c2'' ''docA'' 1,
      example_candidate ''c3'' ''docB'' 1]" 5 True]
  by (simp add: example_simps)

text \<open>
  Claim C8: with diversification enabled, no \<open>doc_id\<close> contributes more than
  \<open>max(2, max_chunks // 3)\<close> entries to the pack, for every candidate list and every
  \<open>max_chunks\<close>.
\<close>

theorem build_grounding_pack_diversity_cap:
  "int (length (filter (\<lambda>g. gc_doc_id g = doc) (build_grounding_pack candidates max_chunks True)))
     \<le> max 2 (max_chunks div 3)"
  unfolding build_grounding_pack_def
  by (rule pack_loop_counts) (simp_all add: get_count_def)

theorem build_grounding_pack_diversity_cap_witness:
  "length (filter (\<lambda>g. gc_doc_id g = ''docA'') (build_grounding_pack
     [example_candidate ''c1'' ''docA'' 1, example_candidate ''c2'' ''docA'' 2,
      example_candidate ''c3'' ''docA'' 3, example_candidate ''c4'' ''docB'' 1] 5 True)) = 2
   \<and> max 2 ((5::int) div 3) = 2"
  using build_grounding_pack_diversity_cap [of "''docA''"
     "[example_candidate ''c1'' ''docA'' 1, example_candidate ''c2'' ''docA'' 2,
      example_candidate ''c3'' ''docA'' 3, example_candidate ''c4'' ''docB'' 1]" 5]
  by (simp add: example_simps)

text \<open>
  Claim C10: the key is added to \<open>seen\<close> before the cap is tested. When the loop rejects
  candidate \<open>i\<close> by the per-document cap, every later candidate it examines with the
  same key is skipped as a duplicate, and no entry of the pack carries that key. The
  first conjunct ties the verdicts to the pack: the pack is built from exactly the
  candidates marked \<open>Kept\<close>.
\<close>

theorem capped_key_stays_registered:
  assumes "i < length (pack_verdicts candidates max_chunks diversify)"
    and "pack_verdicts candidates max_chunks diversify ! i = Capped"
  shows "build_grounding_pack candidates max_chunks diversify
           = map grounding_chunk_of
               (kept_candidates candidates (pack_verdicts candidates max_chunks diversify))
         \<and> (\<forall>j. i < j \<and> j < length (pack_verdicts candidates max_chunks diversify)
                \<and> candidate_key (candidates ! j) = candidate_key (candidates ! i)
              \<longrightarrow> pack_verdicts candidates max_chunks diversify ! j = Duplicate)
         \<and> (\<forall>g \<in> set (build_grounding_pack candidates max_chunks diversify).
              pack_key g \<noteq> candidate_key (candidates ! i))"
proof -
  let ?vs = "pack_verdicts candidates max_chunks diversify"
  have trace: "build_grounding_pack candidates max_chunks diversify
           = map grounding_chunk_of (kept_candidates candidates ?vs)"
    unfolding build_grounding_pack_def pack_verdicts_def pack_loop_trace [of _ _ _ _ "[]"] by simp
  have len: "length ?vs \<le> length candidates"
    unfolding pack_verdicts_def by (rule verdicts_length)
  have dup_iff: "?vs ! k = Duplicate \<longleftrightarrow>
      (\<exists>j<k. candidate_key (candidates ! j) = candidate_key (candidates ! k))"
    if "k < length ?vs" for k
    using verdicts_duplicate_iff [of k max_chunks diversify "{}" Map.empty 0 candidates] that
    unfolding pack_verdicts_def by simp
  have later: "?vs ! j = Duplicate"
    if "i < j" "j < length ?vs" "candidate_key (candidates ! j) = candidate_key (candidates ! i)" for j
    using dup_iff [OF that(2)] that(1,3) by metis
  have no_entry: "pack_key g \<noteq> candidate_key (candidates ! i)"
    if "g \<in> set (build_grounding_pack candidates max_chunks diversify)" for g
  proof
    assume same: "pack_key g = candidate_key (candidates ! i)"
    from that obtain c where c: "c \<in> set (kept_candidates candidates ?vs)" and g: "g = grounding_chunk_of c"
      unfolding trace by auto
    from c obtain j where j: "j < length ?vs" "?vs ! j = Kept" "c = candidates ! j"
      unfolding set_kept_candidates [OF len] by auto
    have key: "candidate_key (candidates ! j) = candidate_key (candidates ! i)"
      using same g j(3) by simp
    have "j \<noteq> i" using j(2) assms(2) by auto
    then consider "j < i" | "i < j" by linarith
    then show False
    proof cases
      case 1
      then have "?vs ! i = Duplicate" using dup_iff [OF assms(1)] key by metis
      then show False using assms(2) by simp
    next
      case 2
      then have "?vs ! j = Duplicate" using later j(1) key by metis
      then show False using j(2) by simp
    qed
  qed
  show ?thesis
  proof (intro conjI allI impI ballI)
    show "build_grounding_pack candidates max_chunks diversify
           = map grounding_chunk_of (kept_candidates candidates ?vs)" by (rule trace)
  next
    fix j
    assume "i < j \<and> j < length ?vs
                \<and> candidate_key (candidates ! j) = candidate_key (candidates ! i)"
    then show "?vs ! j = Duplicate" using later by metis
  next
    fix g
    assume "g \<in> set (build_grounding_pack candidates max_chunks diversify)"
    then show "pack_key g \<noteq> candidate_key (candidates ! i)" by (rule no_entry)
  qed
qed

theorem capped_key_stays_registered_witness:
  "pack_verdicts
     [example_candidate ''c1'' ''docA'' 1, example_candidate ''c2'' ''docA'' 2,
      example_candidate ''c3'' ''docA'' 3, example_candidate ''c4'' ''docA'' 3,
      example_candidate ''c5'' ''docB'' 1] 5 True
   = [Kept, Kept, Capped, Duplicate, Kept]
   \<and> build_grounding_pack
     [example_candidate ''c1'' ''docA'' 1, example_candidate ''c2'' ''docA'' 2,
      example_candidate ''c3'' ''docA'' 3, example_candidate ''c4'' ''docA'' 3,
      example_candidate ''c5'' ''docB'' 1] 5 True
   = [grounding_chunk_of (example_candidate ''c1'' ''docA'' 1),
      grounding_chunk_of (example_candidate ''c2'' ''docA'' 2),
      grounding_chunk_of (example_candidate ''c5'' ''docB'' 1)]"
proof -
  let ?cs = "[example_candidate ''c1'' ''docA'' 1, example_candidate ''c2'' ''docA'' 2,
      example_candidate ''c3'' ''docA'' 3, example_candidate ''c4'' ''docA'' 3,
      example_candidate ''c5'' ''docB'' 1]"
  have vs: "pack_verdicts ?cs 5 True = [Kept, Kept, Capped, Duplicate, Kept]"
    by (simp add: pack_verdicts_def verdicts.simps(2) get_count_def candidate_key_def
        example_candidate_def)
  have i: "2 < length (pack_verdicts ?cs 5 True)" by (simp add: vs)
  have c: "pack_verdicts ?cs 5 True ! 2 = Capped" by (simp add: vs)
  from capped_key_stays_registered [OF i c]
  have "build_grounding_pack ?cs 5 True
      = map grounding_chunk_of (kept_candidates ?cs (pack_verdicts ?cs 5 True))" by blast
  then show ?thesis by (simp add: vs)
qed

section \<open>Chunker: properties of \<open>chunk_document\<close>\<close>

lemma estimate_tokens_pos: "1 \<le> estimate_tokens s"
  by (simp add: estimate_tokens_def Let_def)

lemma block_tokens_pos: "1 \<le> block_tokens b"
  by (simp add: block_tokens_def estimate_tokens_pos)

lemma sum_tokens_simps [simp]:
  "sum_tokens [] = 0"
  "sum_tokens (b # bs) = block_tokens b + sum_tokens bs"
  "sum_tokens (xs @ ys) = sum_tokens xs + sum_tokens ys"
  "sum_tokens (rev xs) = sum_tokens xs"
  by (simp_all add: sum_tokens_def rev_map [symmetric] del: rev_map)

lemma sum_tokens_nonneg: "0 \<le> sum_tokens bs"
proof (induction bs)
  case Nil
  show ?case by simp
next
  case (Cons b bs)
  then show ?case using block_tokens_pos [of b] by simp
qed

lemma sum_tokens_butlast_le: "sum_tokens (butlast bs) \<le> sum_tokens bs"
proof (cases "bs = []")
  case True
  then show ?thesis by simp
next
  case False
  then have "bs = butlast bs @ [last bs]" by simp
  then have "sum_tokens bs = sum_tokens (butlast bs) + block_tokens (last bs)"
    by (metis add.right_neutral sum_tokens_simps(1,2,3))
  then show ?thesis using block_tokens_pos [of "last bs"] by linarith
qed

lemma tail_loop_take: "\<exists>k. tail_loop limit acc tot rest = acc @ take k rest"
proof (induction rest arbitrary: acc tot)
  case Nil
  show ?case by simp
next
  case (Cons b rest)
  show ?case
  proof (cases "tot + block_tokens b > limit \<and> acc \<noteq> []")
    case True
    then have "tail_loop limit acc tot (b # rest) = acc @ take 0 (b # rest)" by simp
    then show ?thesis by blast
  next
    case False
    from Cons.IH [of "acc @ [b]" "tot + block_tokens b"]
    obtain k where "tail_loop limit (acc @ [b]) (tot + block_tokens b) rest = (acc @ [b]) @ take k rest"
      by blast
    then have "tail_loop limit acc tot (b # rest) = acc @ take (Suc k) (b # rest)"
      using False by simp
    then show ?thesis by blast
  qed
qed

lemma tail_loop_nonempty: "acc \<noteq> [] \<or> rest \<noteq> [] \<Longrightarrow> tail_loop limit acc tot rest \<noteq> []"
proof (induction rest arbitrary: acc tot)
  case Nil
  then show ?case by simp
next
  case (Cons b rest)
  show ?case
  proof (cases "tot + block_tokens b > limit \<and> acc \<noteq> []")
    case True
    then show ?thesis by simp
  next
    case False
    have "tail_loop limit (acc @ [b]) (tot + block_tokens b) rest \<noteq> []"
      by (rule Cons.IH) simp
    then show ?thesis using False by simp
  qed
qed

lemma tail_loop_bound:
  "tot = sum_tokens acc \<Longrightarrow> length acc \<le> 1 \<or> tot \<le> limit \<Longrightarrow>
   length (tail_loop limit acc tot rest) \<le> 1 \<or> sum_tokens (tail_loop limit acc tot rest) \<le> limit"
proof (induction rest arbitrary: acc tot)
  case Nil
  then show ?case by simp
next
  case (Cons b rest)
  show ?case
  proof (cases "tot + block_tokens b > limit \<and> acc \<noteq> []")
    case True
    then show ?thesis using Cons.prems by simp
  next
    case False
    have a: "tot + block_tokens b = sum_tokens (acc @ [b])" using Cons.prems(1) by simp
    have b: "length (acc @ [b]) \<le> 1 \<or> tot + block_tokens b \<le> limit" using False by auto
    from Cons.IH [OF a b] show ?thesis using False by simp
  qed
qed

lemma tail_within_tokens_suffix: "suffix (tail_within_tokens blocks limit) blocks"
proof -
  obtain k where "tail_loop limit [] 0 (rev blocks) = [] @ take k (rev blocks)"
    using tail_loop_take by blast
  then have "tail_within_tokens blocks limit = drop (length blocks - k) blocks"
    by (simp add: tail_within_tokens_def rev_take)
  then show ?thesis by (simp add: suffix_drop)
qed

lemma tail_within_tokens_nonempty: "blocks \<noteq> [] \<Longrightarrow> tail_within_tokens blocks limit \<noteq> []"
  by (simp add: tail_within_tokens_def tail_loop_nonempty)

lemma tail_within_tokens_bound:
  "length (tail_within_tokens blocks limit) \<le> 1 \<or> sum_tokens (tail_within_tokens blocks limit) \<le> limit"
  using tail_loop_bound [of 0 "[]" limit "rev blocks"]
  by (simp add: tail_within_tokens_def)

lemma tail_within_tokens_oversized:
  assumes "limit < block_tokens b"
  shows "tail_within_tokens (buf @ [b]) limit = [b]"
proof -
  let ?t = "tail_within_tokens (buf @ [b]) limit"
  have ne: "?t \<noteq> []" by (rule tail_within_tokens_nonempty) simp
  have suf: "suffix ?t (buf @ [b])" by (rule tail_within_tokens_suffix)
  then obtain ps where ps: "buf @ [b] = ps @ ?t" by (auto simp: suffix_def)
  from ne have t: "?t = butlast ?t @ [last ?t]" by simp
  have "last ?t = b" using ps ne by (metis last_appendR last_snoc)
  with t have tb: "?t = butlast ?t @ [b]" by simp
  then have "sum_tokens ?t = sum_tokens (butlast ?t) + block_tokens b"
    by (metis add.right_neutral sum_tokens_simps(1,2,3))
  then have big: "limit < sum_tokens ?t" using assms sum_tokens_nonneg [of "butlast ?t"] by linarith
  with tail_within_tokens_bound [of "buf @ [b]" limit] have "length ?t \<le> 1" by linarith
  then have "butlast ?t = []" by (cases ?t) auto
  with tb show ?thesis by simp
qed

lemma flush_fires:
  "cs_buffer st \<noteq> [] \<Longrightarrow> force \<or> target_tokens config \<le> cs_buffer_tokens st \<Longrightarrow>
   flush doc config force st =
     \<lparr> cs_chunks = cs_chunks st @ [make_chunk doc (cs_chunk_index st) (cs_buffer st)],
       cs_buffer = tail_within_tokens (cs_buffer st) (overlap_tokens config),
       cs_buffer_tokens = sum_tokens (tail_within_tokens (cs_buffer st) (overlap_tokens config)),
       cs_chunk_index = cs_chunk_index st + 1 \<rparr>"
  by (auto simp add: flush_def Let_def)

lemma flush_chunks_prefix: "prefix (cs_chunks st) (cs_chunks (flush doc config force st))"
  by (simp add: flush_def Let_def)

lemma guarded_flush_chunks_prefix:
  "prefix (cs_chunks st) (cs_chunks (if cond then flush doc config force st else st))"
  by (simp add: flush_chunks_prefix)

lemma chunk_step_chunks_prefix: "prefix (cs_chunks st) (cs_chunks (chunk_step doc config st b))"
proof -
  define st1 where "st1 = st \<lparr> cs_buffer := cs_buffer st @ [b],
                    cs_buffer_tokens := cs_buffer_tokens st + block_tokens b \<rparr>"
  define st2 where "st2 = (if cs_buffer_tokens st1 \<ge> target_tokens config then flush doc config False st1 else st1)"
  define st3 where "st3 = (if cs_buffer_tokens st2 \<ge> max_tokens config then flush doc config True st2 else st2)"
  have 0: "cs_chunks st1 = cs_chunks st" by (simp add: st1_def)
  have 1: "prefix (cs_chunks st1) (cs_chunks st2)"
    unfolding st2_def by (rule guarded_flush_chunks_prefix)
  have 2: "prefix (cs_chunks st2) (cs_chunks st3)"
    unfolding st3_def by (rule guarded_flush_chunks_prefix)
  have "chunk_step doc config st b = st3"
    unfolding chunk_step_def Let_def st3_def st2_def st1_def by (rule refl)
  then show ?thesis using prefix_order.trans [OF 1 2] 0 by simp
qed

lemma foldl_chunk_step_chunks_prefix:
  "prefix (cs_chunks st) (cs_chunks (foldl (chunk_step doc config) st bs))"
proof (induction bs arbitrary: st)
  case Nil
  show ?case by simp
next
  case (Cons b bs)
  have "prefix (cs_chunks st) (cs_chunks (chunk_step doc config st b))"
    by (rule chunk_step_chunks_prefix)
  also have "prefix \<dots> (cs_chunks (foldl (chunk_step doc config) (chunk_step doc config st b) bs))"
    by (rule Cons.IH)
  finally show ?case by simp
qed

lemma chunk_from_run_mono:
  "chunk_from_run doc target pre c \<Longrightarrow> chunk_from_run doc target (pre @ ext) c"
proof -
  assume "chunk_from_run doc target pre c"
  then obtain idx bs where c: "c = make_chunk doc idx bs" and ne: "bs \<noteq> []"
    and sub: "sublist bs pre" and run: "length bs \<le> 2 \<or> sum_tokens (butlast bs) < target"
    unfolding chunk_from_run_def by blast
  from sub obtain ps ss where "pre = ps @ bs @ ss" unfolding sublist_def by blast
  then have "pre @ ext = ps @ bs @ (ss @ ext)" by simp
  then have "sublist bs (pre @ ext)" unfolding sublist_def by blast
  with c ne run have "c = make_chunk doc idx bs \<and> bs \<noteq> [] \<and> sublist bs (pre @ ext) \<and>
        (length bs \<le> 2 \<or> sum_tokens (butlast bs) < target)" by simp
  then show "chunk_from_run doc target (pre @ ext) c" unfolding chunk_from_run_def by (rule_tac x = idx in exI, rule_tac x = bs in exI)
qed

lemma chunk_from_run_suffix:
  assumes "bs \<noteq> []" "suffix bs pre" "length bs \<le> 2 \<or> sum_tokens (butlast bs) < target"
  shows "chunk_from_run doc target pre (make_chunk doc idx bs)"
proof -
  have "sublist bs pre" using assms(2) by (rule suffix_imp_sublist)
  then have "make_chunk doc idx bs = make_chunk doc idx bs \<and> bs \<noteq> [] \<and> sublist bs pre \<and>
        (length bs \<le> 2 \<or> sum_tokens (butlast bs) < target)"
    using assms(1,3) by simp
  then show ?thesis unfolding chunk_from_run_def by (rule_tac x = idx in exI, rule_tac x = bs in exI)
qed

lemma chunker_inv_initial: "chunker_inv doc config [] initial_state"
  by (simp add: chunker_inv_def initial_state_def)

lemma chunk_step_below_target:
  assumes "cs_buffer_tokens st + block_tokens b < target_tokens config"
    and "target_tokens config < max_tokens config"
  shows "chunk_step doc config st b =
           st \<lparr> cs_buffer := cs_buffer st @ [b],
                cs_buffer_tokens := cs_buffer_tokens st + block_tokens b \<rparr>"
  using assms by (simp add: chunk_step_def Let_def)

lemma chunk_step_soft_flush:
  assumes "target_tokens config \<le> cs_buffer_tokens st + block_tokens b"
  shows "chunk_step doc config st b =
    (let st2 = \<lparr> cs_chunks = cs_chunks st @ [make_chunk doc (cs_chunk_index st) (cs_buffer st @ [b])],
                 cs_buffer = tail_within_tokens (cs_buffer st @ [b]) (overlap_tokens config),
                 cs_buffer_tokens = sum_tokens (tail_within_tokens (cs_buffer st @ [b]) (overlap_tokens config)),
                 cs_chunk_index = cs_chunk_index st + 1 \<rparr>
     in if max_tokens config \<le> cs_buffer_tokens st2 then flush doc config True st2 else st2)"
proof -
  let ?st1 = "st \<lparr> cs_buffer := cs_buffer st @ [b],
                    cs_buffer_tokens := cs_buffer_tokens st + block_tokens b \<rparr>"
  have "flush doc config False ?st1 =
     \<lparr> cs_chunks = cs_chunks ?st1 @ [make_chunk doc (cs_chunk_index ?st1) (cs_buffer ?st1)],
       cs_buffer = tail_within_tokens (cs_buffer ?st1) (overlap_tokens config),
       cs_buffer_tokens = sum_tokens (tail_within_tokens (cs_buffer ?st1) (overlap_tokens config)),
       cs_chunk_index = cs_chunk_index ?st1 + 1 \<rparr>"
    by (rule flush_fires) (use assms in simp_all)
  then show ?thesis using assms by (simp add: chunk_step_def Let_def)
qed

lemma chunker_inv_step:
  assumes inv: "chunker_inv doc config pre st"
    and cfg: "overlap_tokens config < target_tokens config" "target_tokens config < max_tokens config"
  shows "chunker_inv doc config (pre @ [b]) (chunk_step doc config st b)"
proof -
  let ?T = "target_tokens config" and ?O = "overlap_tokens config" and ?M = "max_tokens config"
  let ?buf1 = "cs_buffer st @ [b]"
  from inv have suf: "suffix (cs_buffer st) pre"
    and tok: "cs_buffer_tokens st = sum_tokens (cs_buffer st)"
    and small: "cs_buffer_tokens st < ?T \<or> length (cs_buffer st) \<le> 1"
    and old: "list_all (chunk_from_run doc ?T pre) (cs_chunks st)"
    unfolding chunker_inv_def by blast+
  have suf1: "suffix ?buf1 (pre @ [b])" using suf by simp
  have old1: "list_all (chunk_from_run doc ?T (pre @ [b])) (cs_chunks st)"
    using old chunk_from_run_mono by (simp add: list_all_iff)
  show ?thesis
  proof (cases "cs_buffer_tokens st + block_tokens b < ?T")
    case True
    show ?thesis
      unfolding chunk_step_below_target [OF True cfg(2)] chunker_inv_def
      using suf1 tok True old1 by simp
  next
    case False
    then have ge: "?T \<le> cs_buffer_tokens st + block_tokens b" by simp
    let ?buf2 = "tail_within_tokens ?buf1 ?O"
    let ?c1 = "make_chunk doc (cs_chunk_index st) ?buf1"
    let ?st2 = "\<lparr> cs_chunks = cs_chunks st @ [?c1], cs_buffer = ?buf2,
        cs_buffer_tokens = sum_tokens ?buf2, cs_chunk_index = cs_chunk_index st + 1 \<rparr>"
    have step: "chunk_step doc config st b =
        (if ?M \<le> sum_tokens ?buf2 then flush doc config True ?st2 else ?st2)"
      unfolding chunk_step_soft_flush [OF ge] Let_def by simp
    have run1: "length ?buf1 \<le> 2 \<or> sum_tokens (butlast ?buf1) < ?T"
      using small tok by auto
    have good1: "chunk_from_run doc ?T (pre @ [b]) ?c1"
      by (rule chunk_from_run_suffix [OF _ suf1 run1]) simp
    have suf2: "suffix ?buf2 (pre @ [b])"
      using tail_within_tokens_suffix [of ?buf1 ?O] suf1 by (metis suffix_order.trans)
    have ne2: "?buf2 \<noteq> []" by (rule tail_within_tokens_nonempty) simp
    have bound2: "length ?buf2 \<le> 1 \<or> sum_tokens ?buf2 \<le> ?O"
      by (rule tail_within_tokens_bound)
    have chunks2: "list_all (chunk_from_run doc ?T (pre @ [b])) (cs_chunks st @ [?c1])"
      using old1 good1 by simp
    show ?thesis
    proof (cases "?M \<le> sum_tokens ?buf2")
      case False
      have small2: "sum_tokens ?buf2 < ?T \<or> length ?buf2 \<le> 1" using bound2 cfg by linarith
      have "chunker_inv doc config (pre @ [b]) ?st2"
        unfolding chunker_inv_def using suf2 small2 chunks2 by simp
      then show ?thesis using step False by simp
    next
      case True
      let ?buf3 = "tail_within_tokens ?buf2 ?O"
      let ?c2 = "make_chunk doc (cs_chunk_index st + 1) ?buf2"
      let ?st3 = "\<lparr> cs_chunks = (cs_chunks st @ [?c1]) @ [?c2], cs_buffer = ?buf3,
          cs_buffer_tokens = sum_tokens ?buf3, cs_chunk_index = cs_chunk_index st + 1 + 1 \<rparr>"
      have "flush doc config True ?st2 = ?st3"
        using flush_fires [of ?st2 True config doc] ne2 by simp
      then have step3: "chunk_step doc config st b = ?st3" using step True by simp
      have one: "length ?buf2 \<le> 1" using bound2 True cfg by linarith
      then have run2: "length ?buf2 \<le> 2 \<or> sum_tokens (butlast ?buf2) < ?T" by simp
      have good2: "chunk_from_run doc ?T (pre @ [b]) ?c2"
        by (rule chunk_from_run_suffix [OF ne2 suf2 run2])
      have suf3: "suffix ?buf3 (pre @ [b])"
        using tail_within_tokens_suffix [of ?buf2 ?O] suf2 by (metis suffix_order.trans)
      have bound3: "length ?buf3 \<le> 1 \<or> sum_tokens ?buf3 \<le> ?O"
        by (rule tail_within_tokens_bound)
      have small3: "sum_tokens ?buf3 < ?T \<or> length ?buf3 \<le> 1" using bound3 cfg by linarith
      have chunks3: "list_all (chunk_from_run doc ?T (pre @ [b])) ((cs_chunks st @ [?c1]) @ [?c2])"
        using chunks2 good2 by simp
      show ?thesis
        unfolding step3 chunker_inv_def using suf3 small3 chunks3 by simp
    qed
  qed
qed

lemma chunker_inv_foldl:
  assumes "chunker_inv doc config pre st"
    and "overlap_tokens config < target_tokens config" "target_tokens config < max_tokens config"
  shows "chunker_inv doc config (pre @ bs) (foldl (chunk_step doc config) st bs)"
  using assms(1)
proof (induction bs arbitrary: pre st)
  case Nil
  then show ?case by simp
next
  case (Cons b bs)
  from chunker_inv_step [OF Cons.prems assms(2,3)]
  have "chunker_inv doc config (pre @ [b]) (chunk_step doc config st b)" .
  from Cons.IH [OF this] show ?case by simp
qed

lemma chunker_inv_final:
  assumes inv: "chunker_inv doc config pre st"
  shows "list_all (chunk_from_run doc (target_tokens config) pre) (cs_chunks (flush doc config True st))"
proof (cases "cs_buffer st = []")
  case True
  then show ?thesis using inv by (simp add: flush_def chunker_inv_def)
next
  case False
  from inv have suf: "suffix (cs_buffer st) pre"
    and tok: "cs_buffer_tokens st = sum_tokens (cs_buffer st)"
    and small: "cs_buffer_tokens st < target_tokens config \<or> length (cs_buffer st) \<le> 1"
    and old: "list_all (chunk_from_run doc (target_tokens config) pre) (cs_chunks st)"
    unfolding chunker_inv_def by blast+
  have run: "length (cs_buffer st) \<le> 2 \<or> sum_tokens (butlast (cs_buffer st)) < target_tokens config"
    using small tok sum_tokens_butlast_le [of "cs_buffer st"] by linarith
  have "chunk_from_run doc (target_tokens config) pre (make_chunk doc (cs_chunk_index st) (cs_buffer st))"
    by (rule chunk_from_run_suffix [OF False suf run])
  then show ?thesis using old False by (simp add: flush_fires)
qed

lemma chunk_document_runs:
  assumes "overlap_tokens config < target_tokens config" "target_tokens config < max_tokens config"
  shows "list_all (chunk_from_run doc (target_tokens config) (dr_blocks doc))
           (chunk_document doc (Some config))"
proof -
  have "chunker_inv doc config ([] @ dr_blocks doc)
          (foldl (chunk_step doc config) initial_state (dr_blocks doc))"
    by (rule chunker_inv_foldl [OF chunker_inv_initial assms])
  then have "chunker_inv doc config (dr_blocks doc)
          (foldl (chunk_step doc config) initial_state (dr_blocks doc))" by simp
  from chunker_inv_final [OF this] show ?thesis by (simp add: chunk_document_def)
qed

lemma make_chunk_fields [simp]:
  "ch_text (make_chunk doc idx bs) = join newline (map blk_text bs)"
  "ch_token_count (make_chunk doc idx bs) = estimate_tokens (join newline (map blk_text bs))"
  "ch_page_start (make_chunk doc idx bs) = Min (set (map blk_page bs))"
  "ch_page_end (make_chunk doc idx bs) = Max (set (map blk_page bs))"
  by (simp_all add: make_chunk_def Let_def)

lemma chunk_step_oversized:
  assumes nonneg: "0 \<le> cs_buffer_tokens st"
    and cfg: "overlap_tokens config < target_tokens config" "target_tokens config < max_tokens config"
    and big: "max_tokens config < block_tokens b"
  shows "make_chunk doc (cs_chunk_index st + 1) [b] \<in> set (cs_chunks (chunk_step doc config st b))"
proof -
  have ge: "target_tokens config \<le> cs_buffer_tokens st + block_tokens b"
    using nonneg cfg big by linarith
  have tail: "tail_within_tokens (cs_buffer st @ [b]) (overlap_tokens config) = [b]"
    by (rule tail_within_tokens_oversized) (use cfg big in linarith)
  let ?st2 = "\<lparr> cs_chunks = cs_chunks st @ [make_chunk doc (cs_chunk_index st) (cs_buffer st @ [b])],
                 cs_buffer = [b], cs_buffer_tokens = sum_tokens [b],
                 cs_chunk_index = cs_chunk_index st + 1 \<rparr>"
  have "chunk_step doc config st b =
      (if max_tokens config \<le> cs_buffer_tokens ?st2 then flush doc config True ?st2 else ?st2)"
    unfolding chunk_step_soft_flush [OF ge] tail Let_def by (rule refl)
  moreover have "max_tokens config \<le> cs_buffer_tokens ?st2" using big by simp
  ultimately have "chunk_step doc config st b = flush doc config True ?st2" by simp
  also have "\<dots> = \<lparr> cs_chunks = cs_chunks ?st2 @ [make_chunk doc (cs_chunk_index ?st2) (cs_buffer ?st2)],
       cs_buffer = tail_within_tokens (cs_buffer ?st2) (overlap_tokens config),
       cs_buffer_tokens = sum_tokens (tail_within_tokens (cs_buffer ?st2) (overlap_tokens config)),
       cs_chunk_index = cs_chunk_index ?st2 + 1 \<rparr>"
    by (rule flush_fires) simp_all
  finally show ?thesis by simp
qed

lemma chunk_document_oversized:
  assumes cfg: "overlap_tokens config < target_tokens config" "target_tokens config < max_tokens config"
    and mem: "b \<in> set (dr_blocks doc)"
    and big: "max_tokens config < block_tokens b"
  shows "\<exists>idx. make_chunk doc idx [b] \<in> set (chunk_document doc (Some config))"
proof -
  from mem obtain pre post where blocks: "dr_blocks doc = pre @ b # post"
    by (auto simp: in_set_conv_decomp)
  let ?step = "chunk_step doc config"
  let ?s = "foldl ?step initial_state pre"
  have "chunker_inv doc config ([] @ pre) ?s"
    by (rule chunker_inv_foldl [OF chunker_inv_initial cfg])
  then have "cs_buffer_tokens ?s = sum_tokens (cs_buffer ?s)" by (simp add: chunker_inv_def)
  then have nonneg: "0 \<le> cs_buffer_tokens ?s" using sum_tokens_nonneg by simp
  let ?c = "make_chunk doc (cs_chunk_index ?s + 1) [b]"
  have 1: "?c \<in> set (cs_chunks (?step ?s b))"
    by (rule chunk_step_oversized [OF nonneg cfg big])
  have 2: "prefix (cs_chunks (?step ?s b)) (cs_chunks (foldl ?step (?step ?s b) post))"
    by (rule foldl_chunk_step_chunks_prefix)
  have 3: "prefix (cs_chunks (foldl ?step (?step ?s b) post))
             (cs_chunks (flush doc config True (foldl ?step (?step ?s b) post)))"
    by (rule flush_chunks_prefix)
  have "foldl ?step initial_state (dr_blocks doc) = foldl ?step (?step ?s b) post"
    by (simp add: blocks)
  then have "chunk_document doc (Some config)
      = cs_chunks (flush doc config True (foldl ?step (?step ?s b) post))"
    by (simp add: chunk_document_def)
  moreover have "?c \<in> set (cs_chunks (flush doc config True (foldl ?step (?step ?s b) post)))"
    using 1 set_mono_prefix [OF 2] set_mono_prefix [OF 3] by blast
  ultimately show ?thesis by auto
qed


text \<open>
  Claim C2, as amended. With \<open>overlap_tokens < target_tokens < max_tokens\<close>, a block whose
  own estimate exceeds \<open>max_tokens\<close> is force-flushed as a chunk of its own: some produced
  chunk has exactly the block's text, its estimate and its page. No block is ever split:
  every chunk's text is the newline-join of a non-empty run of consecutive whole blocks.
  The block is not confined to that one chunk, see \<open>oversized_block_repeated\<close> below.
\<close>

theorem oversized_block_own_chunk:
  assumes "overlap_tokens config < target_tokens config"
    and "target_tokens config < max_tokens config"
    and "b \<in> set (dr_blocks doc)"
    and "max_tokens config < estimate_tokens (blk_text b)"
  shows "(\<exists>c. c \<in> set (chunk_document doc (Some config)) \<and> ch_text c = blk_text b \<and>
             ch_token_count c = estimate_tokens (blk_text b) \<and>
             ch_page_start c = blk_page b \<and> ch_page_end c = blk_page b)
       \<and> (\<forall>c \<in> set (chunk_document doc (Some config)).
            \<exists>bs. bs \<noteq> [] \<and> sublist bs (dr_blocks doc) \<and>
                 ch_text c = join newline (map blk_text bs))"
proof
  have "max_tokens config < block_tokens b" using assms(4) by (simp add: block_tokens_def)
  from chunk_document_oversized [OF assms(1,2,3) this]
  obtain idx where "make_chunk doc idx [b] \<in> set (chunk_document doc (Some config))" by blast
  then show "\<exists>c. c \<in> set (chunk_document doc (Some config)) \<and> ch_text c = blk_text b \<and>
             ch_token_count c = estimate_tokens (blk_text b) \<and>
             ch_page_start c = blk_page b \<and> ch_page_end c = blk_page b"
    by (intro exI [of _ "make_chunk doc idx [b]"]) simp
next
  show "\<forall>c \<in> set (chunk_document doc (Some config)).
            \<exists>bs. bs \<noteq> [] \<and> sublist bs (dr_blocks doc) \<and>
                 ch_text c = join newline (map blk_text bs)"
  proof
    fix c
    assume "c \<in> set (chunk_document doc (Some config))"
    with chunk_document_runs [OF assms(1,2), of doc]
    have "chunk_from_run doc (target_tokens config) (dr_blocks doc) c"
      by (simp add: list_all_iff)
    then obtain idx bs where "c = make_chunk doc idx bs" "bs \<noteq> []" "sublist bs (dr_blocks doc)"
      unfolding chunk_from_run_def by blast
    then have "bs \<noteq> [] \<and> sublist bs (dr_blocks doc) \<and> ch_text c = join newline (map blk_text bs)"
      by simp
    then show "\<exists>bs. bs \<noteq> [] \<and> sublist bs (dr_blocks doc) \<and>
                 ch_text c = join newline (map blk_text bs)" by (rule exI)
  qed
qed


theorem oversized_block_own_chunk_witness:
  "overlap_tokens (example_config 2 1 3) < target_tokens (example_config 2 1 3)
   \<and> target_tokens (example_config 2 1 3) < max_tokens (example_config 2 1 3)
   \<and> max_tokens (example_config 2 1 3) < estimate_tokens ''a b c d''
   \<and> (\<exists>c. c \<in> set (chunk_document (example_doc [''x'', ''a b c d'', ''y''])
                       (Some (example_config 2 1 3)))
          \<and> ch_text c = ''a b c d'' \<and> ch_token_count c = 5)"
proof -
  let ?b = "\<lparr> blk_page = 1, blk_kind = ''paragraph'', blk_text = ''a b c d'' \<rparr>"
  have h1: "overlap_tokens (example_config 2 1 3) < target_tokens (example_config 2 1 3)"
    by (simp add: example_config_def)
  have h2: "target_tokens (example_config 2 1 3) < max_tokens (example_config 2 1 3)"
    by (simp add: example_config_def)
  have h3: "?b \<in> set (dr_blocks (example_doc [''x'', ''a b c d'', ''y'']))"
    by (simp add: example_doc_def)
  have e: "estimate_tokens ''a b c d'' = 5" by code_simp
  have h4: "max_tokens (example_config 2 1 3) < estimate_tokens (blk_text ?b)"
    by (simp add: e example_config_def)
  from oversized_block_own_chunk [OF h1 h2 h3 h4]
  have "\<exists>c. c \<in> set (chunk_document (example_doc [''x'', ''a b c d'', ''y''])
                       (Some (example_config 2 1 3)))
          \<and> ch_text c = ''a b c d'' \<and> ch_token_count c = 5"
    by (auto simp add: e)
  then show ?thesis using h1 h2 h4 by simp
qed


text \<open>
  Claim C2 as stated fails. A document of one block of estimate 5, chunked with
  \<open>max_tokens = 3\<close>, yields three chunks, each with the text of that block: the soft flush,
  the force flush of the retained tail, and the final flush each emit it, because
  \<open>_tail_within_tokens\<close> always keeps the last block. Between two small blocks the same
  block appears in three chunks, only one of which is its own.
\<close>

theorem oversized_block_repeated:
  "map ch_text (chunk_document (example_doc [''a b c d'']) (Some (example_config 2 1 3)))
     = [''a b c d'', ''a b c d'', ''a b c d'']
   \<and> estimate_tokens ''a b c d'' = 5
   \<and> map ch_text (chunk_document (example_doc [''x'', ''a b c d'', ''y'']) (Some (example_config 2 1 3)))
     = [''x'' @ newline @ ''a b c d'', ''a b c d'', ''a b c d'' @ newline @ ''y'', ''y'']"
  by code_simp


text \<open>
  Claim C4, as amended. With \<open>overlap_tokens < target_tokens < max_tokens\<close>, every produced
  chunk is built from a non-empty run of consecutive whole blocks, its \<open>token_count\<close> is
  the estimate of its text, and either the run has at most two blocks or the per-block
  estimates of all its blocks but the last sum to less than \<open>target_tokens\<close>. The code
  never splits a block and never measures the joined text against \<open>max_tokens\<close>, so
  \<open>max_tokens\<close> bounds neither the buffer total nor \<open>token_count\<close>.
\<close>

theorem chunk_document_token_runs:
  assumes "overlap_tokens config < target_tokens config"
    and "target_tokens config < max_tokens config"
  shows "\<forall>c \<in> set (chunk_document doc (Some config)).
           \<exists>bs. bs \<noteq> [] \<and> sublist bs (dr_blocks doc) \<and>
                ch_text c = join newline (map blk_text bs) \<and>
                ch_token_count c = estimate_tokens (ch_text c) \<and>
                (length bs \<le> 2 \<or> sum_tokens (butlast bs) < target_tokens config)"
proof
  fix c
  assume "c \<in> set (chunk_document doc (Some config))"
  with chunk_document_runs [OF assms, of doc]
  have "chunk_from_run doc (target_tokens config) (dr_blocks doc) c"
    by (simp add: list_all_iff)
  then obtain idx bs where "c = make_chunk doc idx bs" "bs \<noteq> []" "sublist bs (dr_blocks doc)"
    "length bs \<le> 2 \<or> sum_tokens (butlast bs) < target_tokens config"
    unfolding chunk_from_run_def by blast
  then have "bs \<noteq> [] \<and> sublist bs (dr_blocks doc) \<and>
                ch_text c = join newline (map blk_text bs) \<and>
                ch_token_count c = estimate_tokens (ch_text c) \<and>
                (length bs \<le> 2 \<or> sum_tokens (butlast bs) < target_tokens config)"
    by simp
  then show "\<exists>bs. bs \<noteq> [] \<and> sublist bs (dr_blocks doc) \<and>
                ch_text c = join newline (map blk_text bs) \<and>
                ch_token_count c = estimate_tokens (ch_text c) \<and>
                (length bs \<le> 2 \<or> sum_tokens (butlast bs) < target_tokens config)" by (rule exI)
qed

theorem chunk_document_token_runs_witness:
  "overlap_tokens (example_config 3 1 4) < target_tokens (example_config 3 1 4)
   \<and> target_tokens (example_config 3 1 4) < max_tokens (example_config 3 1 4)
   \<and> length (chunk_document (example_doc [''a b'', ''c d e'']) (Some (example_config 3 1 4))) = 2
   \<and> (\<exists>bs. bs \<noteq> [] \<and> sublist bs (dr_blocks (example_doc [''a b'', ''c d e'']))
          \<and> ch_text (hd (chunk_document (example_doc [''a b'', ''c d e'']) (Some (example_config 3 1 4))))
              = join newline (map blk_text bs)
          \<and> (length bs \<le> 2 \<or> sum_tokens (butlast bs) < target_tokens (example_config 3 1 4)))"
proof -
  let ?cs = "chunk_document (example_doc [''a b'', ''c d e'']) (Some (example_config 3 1 4))"
  have h1: "overlap_tokens (example_config 3 1 4) < target_tokens (example_config 3 1 4)"
    by (simp add: example_config_def)
  have h2: "target_tokens (example_config 3 1 4) < max_tokens (example_config 3 1 4)"
    by (simp add: example_config_def)
  have len: "length ?cs = 2" by code_simp
  then have "hd ?cs \<in> set ?cs" by (cases ?cs) auto
  with chunk_document_token_runs [OF h1 h2, of "example_doc [''a b'', ''c d e'']"]
  have "\<exists>bs. bs \<noteq> [] \<and> sublist bs (dr_blocks (example_doc [''a b'', ''c d e''])) \<and>
                ch_text (hd ?cs) = join newline (map blk_text bs) \<and>
                ch_token_count (hd ?cs) = estimate_tokens (ch_text (hd ?cs)) \<and>
                (length bs \<le> 2 \<or> sum_tokens (butlast bs) < target_tokens (example_config 3 1 4))"
    by blast
  then have "\<exists>bs. bs \<noteq> [] \<and> sublist bs (dr_blocks (example_doc [''a b'', ''c d e''])) \<and>
                ch_text (hd ?cs) = join newline (map blk_text bs) \<and>
                (length bs \<le> 2 \<or> sum_tokens (butlast bs) < target_tokens (example_config 3 1 4))"
    by blast
  then show ?thesis using h1 h2 len by simp
qed

text \<open>
  Claim C4 as stated fails. Two blocks of estimates 2 and 3, chunked with
  \<open>target_tokens = 3\<close>, \<open>overlap_tokens = 1\<close>, \<open>max_tokens = 4\<close>, give a first chunk of both
  blocks whose \<open>token_count\<close> is 6, above \<open>max_tokens\<close>, although no block exceeds
  \<open>max_tokens\<close> on its own.
\<close>

theorem chunk_over_max_tokens:
  "map ch_token_count (chunk_document (example_doc [''a b'', ''c d e'']) (Some (example_config 3 1 4)))
     = [6, 3]
   \<and> map ch_text (chunk_document (example_doc [''a b'', ''c d e'']) (Some (example_config 3 1 4)))
     = [''a b'' @ newline @ ''c d e'', ''c d e'']
   \<and> map (\<lambda>b. estimate_tokens (blk_text b)) (dr_blocks (example_doc [''a b'', ''c d e''])) = [2, 3]"
  by code_simp

section \<open>Retriever: properties of the filter and of the normalization\<close>

text \<open>
  Claim C1 (the filter is injection-safe). The group identifier is inserted between two
  quotes as it is. A single identifier that holds a quote closes the literal early: the
  filter built for the one group \<open>injected_group\<close> is, character for character, the filter
  built for the two groups \<open>a\<close> and \<open>b\<close>; and an identifier ending in
  \<open>' or '1' eq '1\<close> puts a disjunct of its own inside the \<open>any(...)\<close> clause.
\<close>

theorem filter_for_groups_injection:
  "filter_for_groups [injected_group] = filter_for_groups [''a'', ''b'']
   \<and> filter_for_groups [''x'' @ [quote] @ '' or '' @ [quote] @ ''1'' @ [quote] @ '' eq '' @ [quote] @ ''1'']
     = Some (''allowed_groups/any(g: g eq '' @ [quote] @ ''x'' @ [quote] @ '' or ''
               @ [quote] @ ''1'' @ [quote] @ '' eq '' @ [quote] @ ''1'' @ [quote] @ '')'')"
  by (simp add: filter_for_groups_def group_clause_def injected_group_def)

lemma join_nonempty: "p \<noteq> [] \<Longrightarrow> join sep (p # ps) \<noteq> []"
  by (cases ps) simp_all

lemma filter_for_groups_nonempty:
  "user_groups \<noteq> [] \<Longrightarrow>
   filter_for_groups user_groups = Some (join '' or '' (map group_clause user_groups))
   \<and> join '' or '' (map group_clause user_groups) \<noteq> []"
proof -
  assume "user_groups \<noteq> []"
  then obtain g gs where "user_groups = g # gs" by (cases user_groups) auto
  moreover have "group_clause g \<noteq> []" by (simp add: group_clause_def)
  ultimately show ?thesis by (simp add: filter_for_groups_def join_nonempty)
qed

lemma request_body_without_groups:
  "map_of (request_body self query vector [] top_k) ''filter'' = None"
  by (simp add: request_body_def filter_for_groups_def split: option.split)

lemma request_body_with_groups:
  assumes "user_groups \<noteq> []"
  shows "map_of (request_body self query vector user_groups top_k) ''filter''
           = Some (JStr (join '' or '' (map group_clause user_groups)))"
  using filter_for_groups_nonempty [OF assms]
  by (simp add: request_body_def split: option.split)

text \<open>
  Claim C6 (no filter field without groups; otherwise a filter satisfied exactly when
  \<open>allowed_groups\<close> meets \<open>user_groups\<close>). Without groups the body has no \<open>filter\<close> field
  (\<open>request_body_without_groups\<close>), and with groups the field is the \<open>or\<close>-join of one
  clause per group (\<open>request_body_with_groups\<close>). The second half fails for identifiers
  with a quote: the request for the single group \<open>injected_group\<close> carries the same
  filter as the request for the groups \<open>a\<close> and \<open>b\<close>, yet a record whose
  \<open>allowed_groups\<close> is \<open>[b]\<close> meets the second group list and not the first. Whatever
  the backend makes of the filter text, it cannot be right for both
  (\<open>no_filter_semantics\<close>).
\<close>

theorem request_filter_ignores_group_boundaries:
  "map_of (request_body self query vector [injected_group] top_k) ''filter''
     = map_of (request_body self query vector [''a'', ''b''] top_k) ''filter''
   \<and> set [''b''] \<inter> set [injected_group] = {}
   \<and> set [''b''] \<inter> set [''a'', ''b''] = {''b''}"
proof (intro conjI)
  have "filter_for_groups [injected_group] = filter_for_groups [''a'', ''b'']"
    by (simp add: filter_for_groups_def group_clause_def injected_group_def)
  then show "map_of (request_body self query vector [injected_group] top_k) ''filter''
     = map_of (request_body self query vector [''a'', ''b''] top_k) ''filter''"
    by (simp add: request_body_def)
  show "set [''b''] \<inter> set [injected_group] = {}" by (simp add: injected_group_def)
  show "set [''b''] \<inter> set [''a'', ''b''] = {''b''}" by auto
qed

lemma no_filter_semantics:
  "\<not> (\<exists>sat :: string \<Rightarrow> string list \<Rightarrow> bool. \<forall>user_groups allowed_groups. user_groups \<noteq> [] \<longrightarrow>
        (sat (the (filter_for_groups user_groups)) allowed_groups
           \<longleftrightarrow> set allowed_groups \<inter> set user_groups \<noteq> {}))"
proof
  assume "\<exists>sat :: string \<Rightarrow> string list \<Rightarrow> bool. \<forall>user_groups allowed_groups. user_groups \<noteq> [] \<longrightarrow>
        (sat (the (filter_for_groups user_groups)) allowed_groups
           \<longleftrightarrow> set allowed_groups \<inter> set user_groups \<noteq> {})"
  then obtain sat :: "string \<Rightarrow> string list \<Rightarrow> bool" where sat:
    "\<And>user_groups allowed_groups. user_groups \<noteq> [] \<Longrightarrow>
        sat (the (filter_for_groups user_groups)) allowed_groups
           \<longleftrightarrow> set allowed_groups \<inter> set user_groups \<noteq> {}" by blast
  have same: "filter_for_groups [injected_group] = filter_for_groups [''a'', ''b'']"
    by (simp add: filter_for_groups_def group_clause_def injected_group_def)
  have "sat (the (filter_for_groups [''a'', ''b''])) [''b'']"
    using sat [of "[''a'', ''b'']" "[''b'']"] by simp
  moreover have "\<not> sat (the (filter_for_groups [injected_group])) [''b'']"
    using sat [of "[injected_group]" "[''b'']"] by (simp add: injected_group_def)
  ultimately show False using same by simp
qed

lemma metadata_of_fallback:
  "s \<noteq> [] \<Longrightarrow> json_loads s = Inl JSONDecodeError \<Longrightarrow>
   metadata_of json_loads (JStr s) = Inr (JObj [(''raw'', JStr s)])"
  by (simp add: metadata_of_def)

lemma metadata_of_uncaught:
  "s \<noteq> [] \<Longrightarrow> json_loads s = Inl e \<Longrightarrow> e \<noteq> JSONDecodeError \<Longrightarrow>
   metadata_of json_loads (JStr s) = Inl e"
  by (simp add: metadata_of_def)

text \<open>
  An exception of the metadata parser other than \<open>JSONDecodeError\<close> ends the whole
  normalization, whatever else the payload holds before or after the record.
\<close>

lemma normalize_record_uncaught:
  assumes "map_of d ''metadata_json'' = Some (JStr s)" and "s \<noteq> []"
    and "json_loads s = Inl e" and "e \<noteq> JSONDecodeError"
  shows "normalize_record json_loads float_of_int float_of_str (JObj d) = Inl e"
  using assms by (simp add: normalize_record_def dict_get_def metadata_of_def)

lemma record_convertsD:
  assumes "record_converts json_loads float_of_int float_of_str d"
  obtains metadata_dict highlight score
  where "metadata_of json_loads (dict_get d ''metadata_json'' JNull) = Inr metadata_dict"
    and "highlight_of (dict_get d ''@search.highlights'' (JObj [])) = Inr highlight"
    and "py_float float_of_int float_of_str (dict_get d ''@search.score'' (JFloat (Finite 0)))
           = Inr score"
proof -
  obtain m where m: "metadata_of json_loads (dict_get d ''metadata_json'' JNull) = Inr m"
    using assms unfolding record_converts_def
    by (cases "metadata_of json_loads (dict_get d ''metadata_json'' JNull)") simp_all
  obtain h where h: "highlight_of (dict_get d ''@search.highlights'' (JObj [])) = Inr h"
    using assms unfolding record_converts_def m
    by (cases "highlight_of (dict_get d ''@search.highlights'' (JObj []))") simp_all
  obtain x where x: "py_float float_of_int float_of_str
      (dict_get d ''@search.score'' (JFloat (Finite 0))) = Inr x"
    using assms unfolding record_converts_def m h
    by (cases "py_float float_of_int float_of_str
          (dict_get d ''@search.score'' (JFloat (Finite 0)))") simp_all
  from m h x show ?thesis by (rule that)
qed

lemma metadata_kept:
  assumes "metadata_of json_loads (dict_get d ''metadata_json'' JNull) = Inr m"
    and "rs_metadata r = m"
  shows "unparseable_metadata_kept json_loads d r"
proof (cases "map_of d ''metadata_json''")
  case None
  then show ?thesis by (simp add: unparseable_metadata_kept_def)
next
  case (Some v)
  show ?thesis
  proof (cases v)
    case (JStr s)
    have "rs_metadata r = JObj [(''raw'', JStr s)]"
      if "s \<noteq> []" "json_loads s = Inl JSONDecodeError"
      using assms that Some JStr by (simp add: dict_get_def metadata_of_fallback)
    then show ?thesis using Some JStr by (simp add: unparseable_metadata_kept_def)
  qed (simp_all add: unparseable_metadata_kept_def Some)
qed

lemma normalize_record_ok:
  assumes "record_converts json_loads float_of_int float_of_str d"
  shows "\<exists>r. normalize_record json_loads float_of_int float_of_str (JObj d) = Inr r
           \<and> unparseable_metadata_kept json_loads d r \<and> missing_fields_default d r"
proof -
  from assms obtain metadata_dict highlight score
    where md: "metadata_of json_loads (dict_get d ''metadata_json'' JNull) = Inr metadata_dict"
      and hl: "highlight_of (dict_get d ''@search.highlights'' (JObj [])) = Inr highlight"
      and sc: "py_float float_of_int float_of_str (dict_get d ''@search.score'' (JFloat (Finite 0)))
                 = Inr score"
    by (rule record_convertsD)
  let ?r = "\<lparr> rs_chunk_id = dict_get d ''id'' (JStr []),
              rs_doc_id = dict_get d ''doc_id'' (JStr []),
              rs_rev = dict_get d ''rev'' (JStr []),
              rs_text = dict_get d ''text'' (JStr []),
              rs_score = score,
              rs_section_path = dict_get d ''section_path'' JNull,
              rs_page_start = dict_get d ''page_start'' JNull,
              rs_page_end = dict_get d ''page_end'' JNull,
              rs_source_url = dict_get d ''source_url'' (JStr []),
              rs_allowed_groups = dict_get d ''allowed_groups'' (JArr []),
              rs_metadata = metadata_dict,
              rs_highlights = highlight \<rparr>"
  have run: "normalize_record json_loads float_of_int float_of_str (JObj d) = Inr ?r"
    unfolding normalize_record_def by (simp add: md hl sc)
  have meta: "unparseable_metadata_kept json_loads d ?r"
    by (rule metadata_kept [OF md]) simp
  have md0: "map_of d ''metadata_json'' = None \<Longrightarrow> metadata_dict = JObj []"
    using md by (simp add: dict_get_def metadata_of_def)
  have sc0: "map_of d ''@search.score'' = None \<Longrightarrow> score = Finite 0"
    using sc by (simp add: dict_get_def)
  have hl0: "map_of d ''@search.highlights'' = None \<Longrightarrow> highlight = JNull"
    using hl by (simp add: dict_get_def highlight_of_def)
  have dflt: "missing_fields_default d ?r"
    using md0 sc0 hl0 by (simp add: missing_fields_default_def dict_get_def)
  from run meta dflt show ?thesis by (intro exI [of _ ?r] conjI)
qed

lemma normalize_records_ok:
  assumes "\<forall>raw \<in> set raws. \<exists>d. raw = JObj d \<and> record_converts json_loads float_of_int float_of_str d"
  shows "\<exists>results. normalize_records json_loads float_of_int float_of_str raws = Inr results
           \<and> list_all2 (\<lambda>raw r. \<forall>d. raw = JObj d \<longrightarrow>
                 unparseable_metadata_kept json_loads d r \<and> missing_fields_default d r) raws results"
  using assms
proof (induction raws)
  case Nil
  show ?case by simp
next
  case (Cons raw raws)
  from Cons.prems obtain d
    where d: "raw = JObj d" "record_converts json_loads float_of_int float_of_str d"
    by auto
  from normalize_record_ok [OF d(2)]
  obtain r where r: "normalize_record json_loads float_of_int float_of_str (JObj d) = Inr r"
    "unparseable_metadata_kept json_loads d r" "missing_fields_default d r" by blast
  from Cons.IH Cons.prems
  obtain rs where rs: "normalize_records json_loads float_of_int float_of_str raws = Inr rs"
    "list_all2 (\<lambda>raw r. \<forall>d. raw = JObj d \<longrightarrow>
        unparseable_metadata_kept json_loads d r \<and> missing_fields_default d r) raws rs"
    by auto
  have "normalize_records json_loads float_of_int float_of_str (raw # raws) = Inr (r # rs)"
    by (simp add: d(1) r(1) rs(1))
  moreover have "list_all2 (\<lambda>raw r. \<forall>d. raw = JObj d \<longrightarrow>
        unparseable_metadata_kept json_loads d r \<and> missing_fields_default d r) (raw # raws) (r # rs)"
    using d(1) r(2,3) rs(2) by simp
  ultimately show ?case by blast
qed

text \<open>
  What does hold: when on every record the metadata parser returns or raises
  \<open>JSONDecodeError\<close>, the score converts and the highlight fragments join, the
  normalization returns one result per record, keeps a rejected metadata string under
  \<open>raw\<close> and gives every missing field its default.
\<close>

lemma normalize_payload_ok:
  assumes "dict_get p ''value'' (JArr []) = JArr raws"
    and "\<forall>raw \<in> set raws. \<exists>d. raw = JObj d \<and> record_converts json_loads float_of_int float_of_str d"
  shows "\<exists>results. normalize_payload json_loads float_of_int float_of_str (JObj p) = Inr results
           \<and> length results = length raws
           \<and> list_all2 (\<lambda>raw r. \<forall>d. raw = JObj d \<longrightarrow>
                 unparseable_metadata_kept json_loads d r \<and> missing_fields_default d r) raws results"
proof -
  from normalize_records_ok [OF assms(2)]
  obtain results where res: "normalize_records json_loads float_of_int float_of_str raws = Inr results"
    "list_all2 (\<lambda>raw r. \<forall>d. raw = JObj d \<longrightarrow>
        unparseable_metadata_kept json_loads d r \<and> missing_fields_default d r) raws results"
    by blast
  have "normalize_payload json_loads float_of_int float_of_str (JObj p) = Inr results"
    by (simp add: normalize_payload_def assms(1) res(1))
  moreover have "length results = length raws"
    using res(2) by (simp add: list_all2_lengthD)
  ultimately show ?thesis using res(2) by blast
qed

lemma deep_nesting_length: "length deep_nesting = 1200"
  by (simp add: deep_nesting_def)

lemma example_loads_values:
  "deep_nesting \<noteq> []"
  "example_loads deep_nesting = Inl RecursionError"
  "example_loads ''{oops'' = Inl JSONDecodeError"
proof -
  show "deep_nesting \<noteq> []" using deep_nesting_length by auto
  show "example_loads deep_nesting = Inl RecursionError" by (simp add: example_loads_def)
  have "length ''{oops'' \<noteq> length deep_nesting" by (simp add: deep_nesting_length)
  then have "''{oops'' \<noteq> deep_nesting" by metis
  then show "example_loads ''{oops'' = Inl JSONDecodeError" by (simp add: example_loads_def)
qed

lemmas retrieve_example_simps =
  retrieve_def example_embed_def example_backend_def normalize_payload_def normalize_record_def
  dict_get_def metadata_of_def highlight_of_def example_loads_values

text \<open>
  Claim C9 (the normalization never fails the query on a record's anomalies: a non-empty
  metadata string that cannot be parsed is kept under a fallback key, missing fields get
  defaults). The \<open>try\<close> around \<open>json.loads\<close> catches \<open>JSONDecodeError\<close> only. On a metadata
  string of 1200 opening brackets the parser raises \<open>RecursionError\<close>, which leaves the
  \<open>try\<close> statement and fails the whole call, although the string is non-empty and
  cannot be parsed. On a syntax error the fallback works (second equation). A record
  whose score is \<open>null\<close> fails the call in \<open>float(...)\<close> with \<open>TypeError\<close> (third
  equation). What holds in general is \<open>normalize_payload_ok\<close> above.
\<close>

theorem uncaught_parser_error_fails_query:
  "retrieve example_embed
     (example_backend (JObj [(''value'',
        JArr [JObj [(''id'', JStr ''c1''), (''metadata_json'', JStr deep_nesting)]])]))
     example_loads unused_float_of_int unused_float_of_str
     (init_retriever ''idx'' None None ''embedding_vector'') ''q'' [] 5
     = Inl RecursionError
   \<and> retrieve example_embed
     (example_backend (JObj [(''value'',
        JArr [JObj [(''id'', JStr ''c1''), (''metadata_json'', JStr ''{oops'')]])]))
     example_loads unused_float_of_int unused_float_of_str
     (init_retriever ''idx'' None None ''embedding_vector'') ''q'' [] 5
     = Inr [\<lparr> rs_chunk_id = JStr ''c1'', rs_doc_id = JStr [], rs_rev = JStr [],
              rs_text = JStr [], rs_score = Finite 0, rs_section_path = JNull,
              rs_page_start = JNull, rs_page_end = JNull, rs_source_url = JStr [],
              rs_allowed_groups = JArr [], rs_metadata = JObj [(''raw'', JStr ''{oops'')],
              rs_highlights = JNull \<rparr>]
   \<and> retrieve example_embed
     (example_backend (JObj [(''value'',
        JArr [JObj [(''id'', JStr ''c1''), (''@search.score'', JNull)]])]))
     example_loads unused_float_of_int unused_float_of_str
     (init_retriever ''idx'' None None ''embedding_vector'') ''q'' [] 5
     = Inl TypeError"
  by (simp add: retrieve_example_simps)

end
